theory Spec2Isabelle
  imports Main
begin

section \<open>Data model of \<^verbatim>\<open>utils::lru_cache\<close>\<close>

text \<open>
  The cache of \<^verbatim>\<open>include/lru_cache.h\<close> keeps its entries in an
  \<^verbatim>\<open>std::unordered_map<Key, node, Hash, KeyEquals>\<close> and threads a circular
  doubly-linked list through the map entries and one extra entry, the sentinel. An
  \<^verbatim>\<open>entry_ptr\<close> is the address of a map entry or of the sentinel; map entries never
  move, so the address of an entry is modelled by the key that is stored in it (the key
  the entry was inserted with, which may differ from a key that \<^verbatim>\<open>KeyEquals\<close> it).
  A node is constructed with both links \<^verbatim>\<open>nullptr\<close>.
\<close>

datatype 'k entry_ptr = Null | Sentinel | Entry 'k

record ('k, 'v) node =
  node_value :: "'v option"
  older :: "'k entry_ptr"
  newer :: "'k entry_ptr"

text \<open>\<^verbatim>\<open>std::error_code\<close>: a value and a category.\<close>

datatype category = System_category | Generic_category

datatype error_code = Error_code int category

definition no_error :: error_code where
  "no_error = Error_code 0 System_category"

text \<open>
  The callbacks are \<^verbatim>\<open>std::function\<close> values supplied by the caller. A callback is
  modelled by what it does to the cache: the list of cache operations its body performs.
  A \<^verbatim>\<open>get_reply_f\<close> carries a number that identifies it in the record of invocations.
  \<open>Complete k v e\<close> is a call of the \<^verbatim>\<open>miss_handler_reply_f\<close> that \<^verbatim>\<open>get\<close>
  handed to the miss handler for key \<open>k\<close>, with value \<open>v\<close> (\<open>None\<close> is the null
  \<^verbatim>\<open>unique_ptr\<close>) and error \<open>e\<close>.
\<close>

datatype ('k, 'v) action =
    Get 'k "('k, 'v) get_reply_f"
  | Find 'k
  | Invalidate 'k
  | Flush
  | Complete 'k "'v option" error_code
and ('k, 'v) get_reply_f = Reply nat "('k, 'v) action list"

text \<open>What an observer sees: the miss handler called for a key, a reply called with its
  two arguments.\<close>

datatype 'k event = Fetch 'k | Replied nat "'k entry_ptr" error_code

text \<open>
  Behaviour the language leaves undefined is a value of the model: dereferencing
  \<^verbatim>\<open>nullptr\<close>, an end iterator or the address of an erased entry, going on with a
  loop over a vector after a \<^verbatim>\<open>push_back\<close> on that vector has invalidated the
  iterators of the loop, and calling a completion that was never handed out or was called
  before. \<open>Out_of_fuel\<close> stands for a chain of nested callbacks deeper than the bound
  given to the run.
\<close>

datatype fault =
    Out_of_fuel
  | Null_dereferenced
  | End_dereferenced
  | Dangling_pointer
  | Iterator_invalidated
  | Completion_misuse

text \<open>
  The members of the class (an identifier cannot end in an underscore here, so
  \<^verbatim>\<open>sentinel_\<close>, \<^verbatim>\<open>map_\<close>, \<^verbatim>\<open>limit_\<close>, \<^verbatim>\<open>miss_handler_\<close> and
  \<^verbatim>\<open>pending_replies_\<close> lose it, and the map is \<open>lru_map\<close> after its type
  \<^verbatim>\<open>lru_map_t\<close>), and two fields of observation: \<open>outstanding\<close> lists the keys
  whose completion has been handed to the miss handler and not yet called (a completion
  is to be called exactly once), \<open>trace\<close> records the calls of the miss handler and of
  the replies. \<open>sentinel_key\<close> is \<^verbatim>\<open>sentinel_.first\<close>, a value-initialised key.

  The two maps do not compare keys in the same way. \<^verbatim>\<open>map_\<close> is declared with the
  template arguments of the class,
  \<^verbatim>\<open>std::unordered_map<Key, node, Hash, KeyEquals>\<close>: it finds an entry for a key when
  \<^verbatim>\<open>KeyEquals\<close> holds of the stored key and the key. \<open>key_equals\<close> is that
  predicate; \<^verbatim>\<open>Hash\<close> is taken to agree with it, as the container requires, so that it
  decides where an entry is looked for and not which entry matches.
  \<^verbatim>\<open>pending_replies_\<close> is declared without them,
  \<^verbatim>\<open>std::unordered_map<Key, pending_reply_list_t>\<close>: it compares keys with
  \<^verbatim>\<open>std::equal_to<Key>\<close>, that is \<^verbatim>\<open>==\<close>, which is the equality of the key type
  here. With the default \<^verbatim>\<open>KeyEquals\<close> the two agree, and \<open>key_equals\<close> is \<open>(=)\<close>.

  The map is an association list of the stored keys and their nodes, because
  \<^verbatim>\<open>size()\<close> counts it; the pending map is only searched, extended and erased by key,
  and its entries are vectors of replies. The limit is a
  \<^verbatim>\<open>size_t\<close> that is only compared with the size of the map. The two fields of
  observation are written where the source calls the miss handler or a reply; no
  function of the cache reads them, only \<open>exec\<close> below reads \<open>outstanding\<close>, to tell
  a completion that may be called from one that may not.
\<close>

record ('k, 'v) lru_cache =
  key_equals :: "'k \<Rightarrow> 'k \<Rightarrow> bool"
  sentinel_key :: 'k
  sentinel :: "('k, 'v) node"
  lru_map :: "('k \<times> ('k, 'v) node) list"
  limit :: nat
  miss_handler :: "'k \<Rightarrow> ('k, 'v) action list"
  pending_replies :: "'k \<Rightarrow> ('k, 'v) get_reply_f list option"
  outstanding :: "'k list"
  trace :: "'k event list"

section \<open>The recency list\<close>

text \<open>Reading and writing \<^verbatim>\<open>p->second\<close>.\<close>

definition node_at :: "('k, 'v) lru_cache \<Rightarrow> 'k entry_ptr \<Rightarrow> fault + ('k, 'v) node" where
  "node_at s p =
     (case p of
        Null \<Rightarrow> Inl Null_dereferenced
      | Sentinel \<Rightarrow> Inr (sentinel s)
      | Entry k \<Rightarrow>
          (case map_of (lru_map s) k of
             None \<Rightarrow> Inl Dangling_pointer
           | Some nd \<Rightarrow> Inr nd))"

definition modify_node ::
  "'k entry_ptr \<Rightarrow> (('k, 'v) node \<Rightarrow> ('k, 'v) node) \<Rightarrow> ('k, 'v) lru_cache
     \<Rightarrow> fault + ('k, 'v) lru_cache" where
  "modify_node p f s =
     (case p of
        Null \<Rightarrow> Inl Null_dereferenced
      | Sentinel \<Rightarrow> Inr (s\<lparr>sentinel := f (sentinel s)\<rparr>)
      | Entry k \<Rightarrow>
          (case map_of (lru_map s) k of
             None \<Rightarrow> Inl Dangling_pointer
           | Some nd \<Rightarrow>
               Inr (s\<lparr>lru_map := map (\<lambda>(k', n). (k', if k' = k then f n else n)) (lru_map s)\<rparr>)))"

text \<open>\<^verbatim>\<open>extract\<close> reads both links of the node, then rewrites its two neighbours.\<close>

definition "extract" :: "'k entry_ptr \<Rightarrow> ('k, 'v) lru_cache \<Rightarrow> fault + ('k, 'v) lru_cache" where
  "extract p s =
     (case node_at s p of
        Inl e \<Rightarrow> Inl e
      | Inr nd \<Rightarrow>
          (case modify_node (newer nd) (\<lambda>n. n\<lparr>older := older nd\<rparr>) s of
             Inl e \<Rightarrow> Inl e
           | Inr s1 \<Rightarrow> modify_node (older nd) (\<lambda>n. n\<lparr>newer := newer nd\<rparr>) s1))"

definition insert_at_head :: "'k entry_ptr \<Rightarrow> ('k, 'v) lru_cache \<Rightarrow> fault + ('k, 'v) lru_cache" where
  "insert_at_head p s =
     (let front = older (sentinel s) in
      case modify_node p (\<lambda>n. n\<lparr>older := front\<rparr>) s of
        Inl e \<Rightarrow> Inl e
      | Inr s1 \<Rightarrow>
          (case modify_node p (\<lambda>n. n\<lparr>newer := Sentinel\<rparr>) s1 of
             Inl e \<Rightarrow> Inl e
           | Inr s2 \<Rightarrow>
               (case modify_node front (\<lambda>n. n\<lparr>newer := p\<rparr>) s2 of
                  Inl e \<Rightarrow> Inl e
                | Inr s3 \<Rightarrow> Inr (s3\<lparr>sentinel := (sentinel s3)\<lparr>older := p\<rparr>\<rparr>))))"

definition touch :: "'k entry_ptr \<Rightarrow> ('k, 'v) lru_cache \<Rightarrow> fault + ('k, 'v) lru_cache" where
  "touch p s = (case extract p s of Inl e \<Rightarrow> Inl e | Inr s1 \<Rightarrow> insert_at_head p s1)"

text \<open>\<^verbatim>\<open>remove\<close> takes a map iterator; the end iterator has no entry to unlink.\<close>

definition remove :: "'k option \<Rightarrow> ('k, 'v) lru_cache \<Rightarrow> fault + ('k, 'v) lru_cache" where
  "remove it s =
     (case it of
        None \<Rightarrow> Inl End_dereferenced
      | Some k \<Rightarrow>
          (case extract (Entry k) s of
             Inl e \<Rightarrow> Inl e
           | Inr s1 \<Rightarrow> Inr (s1\<lparr>lru_map := filter (\<lambda>kv. fst kv \<noteq> k) (lru_map s1)\<rparr>)))"

text \<open>
  \<^verbatim>\<open>map_.find(key)\<close>: an iterator to the entry whose stored key \<^verbatim>\<open>KeyEquals\<close> the
  key, given by that stored key, or the end iterator.
\<close>

definition map_find :: "('k, 'v) lru_cache \<Rightarrow> 'k \<Rightarrow> 'k option" where
  "map_find s key = map_option fst (find (\<lambda>kv. key_equals s (fst kv) key) (lru_map s))"

text \<open>\<^verbatim>\<open>lru->first\<close>, the key stored at an address.\<close>

definition first_at :: "('k, 'v) lru_cache \<Rightarrow> 'k entry_ptr \<Rightarrow> fault + 'k" where
  "first_at s p =
     (case p of
        Null \<Rightarrow> Inl Null_dereferenced
      | Sentinel \<Rightarrow> Inr (sentinel_key s)
      | Entry k \<Rightarrow> (case map_of (lru_map s) k of None \<Rightarrow> Inl Dangling_pointer | Some nd \<Rightarrow> Inr k))"

definition evict_lru :: "('k, 'v) lru_cache \<Rightarrow> fault + ('k, 'v) lru_cache" where
  "evict_lru s =
     (let lru = newer (sentinel s) in
      case first_at s lru of
        Inl e \<Rightarrow> Inl e
      | Inr k \<Rightarrow> remove (map_find s k) s)"

text \<open>
  \<^verbatim>\<open>enforce_limit\<close> is the loop \<^verbatim>\<open>while (map_.size() > limit_) evict_lru();\<close>.
  Every eviction that returns has erased an entry of the map, so the loop ends.
\<close>

function enforce_limit :: "('k, 'v) lru_cache \<Rightarrow> fault + ('k, 'v) lru_cache" where
  "enforce_limit s =
     (if length (lru_map s) > limit s
      then (case evict_lru s of Inl e \<Rightarrow> Inl e | Inr s1 \<Rightarrow> enforce_limit s1)
      else Inr s)"
  by pat_completeness auto
termination
proof (relation "measure (\<lambda>s. length (lru_map s))")
  show "wf (measure (\<lambda>s::('k, 'v) lru_cache. length (lru_map s)))"
    by simp
next
  fix s s1 :: "('k, 'v) lru_cache"
  assume ev: "evict_lru s = Inr s1"
  have modify_len: "length (lru_map t') = length (lru_map t) \<and> map fst (lru_map t') = map fst (lru_map t)"
    if "modify_node p f t = Inr t'" for p f and t t' :: "('k, 'v) lru_cache"
    using that
    by (auto simp: modify_node_def comp_def case_prod_unfold
             split: entry_ptr.splits option.splits)
  from ev obtain k k' s0 where k: "map_find s k' = Some k"
      and ex: "extract (Entry k) s = Inr s0"
      and s1: "s1 = s0\<lparr>lru_map := filter (\<lambda>kv. fst kv \<noteq> k) (lru_map s0)\<rparr>"
    by (auto simp: evict_lru_def remove_def Let_def split: sum.splits option.splits)
  from ex have keys: "map fst (lru_map s0) = map fst (lru_map s)"
    by (auto simp: extract_def split: sum.splits dest!: modify_len)
  from k obtain kv where "find (\<lambda>kv. key_equals s (fst kv) k') (lru_map s) = Some kv"
      and kv: "fst kv = k"
    by (auto simp: map_find_def)
  then have "kv \<in> set (lru_map s)"
    by (metis find_Some_iff nth_mem)
  with kv have "k \<in> set (map fst (lru_map s))"
    by auto
  with keys have "k \<in> fst ` set (lru_map s0)"
    by (metis set_map)
  then have "length (filter (\<lambda>kv. fst kv \<noteq> k) (lru_map s0)) < length (lru_map s0)"
    by (auto intro!: length_filter_less)
  moreover have "length (lru_map s0) = length (lru_map s)"
    using keys by (metis length_map)
  ultimately show "(s1, s) \<in> measure (\<lambda>s. length (lru_map s))"
    by (simp add: s1)
qed

text \<open>
  \<^verbatim>\<open>map_.emplace(key, value)\<close> inserts a fresh node (both links null) under the key
  unless the map has an entry whose key \<^verbatim>\<open>KeyEquals\<close> it, and yields the entry in
  both cases (\<^verbatim>\<open>emplaced.first\<close>): the new one, or the one that was there, which
  keeps its key, its value and its links. \<^verbatim>\<open>add_entry\<close> links the entry it is given
  at the head, without asking whether it was inserted.
\<close>

definition emplace :: "'k \<Rightarrow> 'v \<Rightarrow> ('k, 'v) lru_cache \<Rightarrow> 'k \<times> ('k, 'v) lru_cache" where
  "emplace key v s =
     (case map_find s key of
        Some k \<Rightarrow> (k, s)
      | None \<Rightarrow>
          (key,
           s\<lparr>lru_map := (key, \<lparr>node_value = Some v, older = Null, newer = Null\<rparr>) # lru_map s\<rparr>))"

definition add_entry ::
  "'k \<Rightarrow> 'v \<Rightarrow> ('k, 'v) lru_cache \<Rightarrow> fault + ('k entry_ptr \<times> ('k, 'v) lru_cache)" where
  "add_entry key v s =
     (case emplace key v s of
        (k, s0) \<Rightarrow>
          (case insert_at_head (Entry k) s0 of
             Inl e \<Rightarrow> Inl e
           | Inr s1 \<Rightarrow>
               (case enforce_limit s1 of
                  Inl e \<Rightarrow> Inl e
                | Inr s2 \<Rightarrow> Inr (Entry k, s2))))"

section \<open>The public operations\<close>

text \<open>
  The constructor, of the class instantiated with \<open>eq\<close> for \<^verbatim>\<open>KeyEquals\<close>; the load
  factor only sizes the bucket array.
\<close>

definition construct ::
  "('k \<Rightarrow> 'k \<Rightarrow> bool) \<Rightarrow> 'k \<Rightarrow> ('k \<Rightarrow> ('k, 'v) action list) \<Rightarrow> nat \<Rightarrow> ('k, 'v) lru_cache" where
  "construct eq key0 handler lim =
     \<lparr>key_equals = eq,
      sentinel_key = key0,
      sentinel = \<lparr>node_value = None, older = Sentinel, newer = Sentinel\<rparr>,
      lru_map = [],
      limit = lim,
      miss_handler = handler,
      pending_replies = (\<lambda>k. None),
      outstanding = [],
      trace = []\<rparr>"

definition cbegin :: "('k, 'v) lru_cache \<Rightarrow> 'k entry_ptr" where
  "cbegin s = older (sentinel s)"

definition cend :: "('k, 'v) lru_cache \<Rightarrow> 'k entry_ptr" where
  "cend s = Sentinel"

definition cache_size :: "('k, 'v) lru_cache \<Rightarrow> nat" where
  "cache_size s = length (lru_map s)"

definition flush :: "('k, 'v) lru_cache \<Rightarrow> ('k, 'v) lru_cache" where
  "flush s = s\<lparr>lru_map := [], sentinel := (sentinel s)\<lparr>newer := Sentinel, older := Sentinel\<rparr>\<rparr>"

definition find_entry :: "('k, 'v) lru_cache \<Rightarrow> 'k \<Rightarrow> 'k entry_ptr" where
  "find_entry s key = (case map_find s key of Some hit \<Rightarrow> Entry hit | None \<Rightarrow> cend s)"

definition invalidate :: "'k \<Rightarrow> ('k, 'v) lru_cache \<Rightarrow> fault + ('k, 'v) lru_cache" where
  "invalidate key s = (case map_find s key of Some fit \<Rightarrow> remove (Some fit) s | None \<Rightarrow> Inr s)"

text \<open>The iterator: \<^verbatim>\<open>operator++\<close>, \<^verbatim>\<open>operator*\<close> and \<^verbatim>\<open>check_linkage\<close>.\<close>

definition increment :: "('k, 'v) lru_cache \<Rightarrow> 'k entry_ptr \<Rightarrow> fault + 'k entry_ptr" where
  "increment s p = (case node_at s p of Inl e \<Rightarrow> Inl e | Inr nd \<Rightarrow> Inr (older nd))"

definition deref :: "('k, 'v) lru_cache \<Rightarrow> 'k entry_ptr \<Rightarrow> fault + 'v" where
  "deref s p =
     (case node_at s p of
        Inl e \<Rightarrow> Inl e
      | Inr nd \<Rightarrow> (case node_value nd of None \<Rightarrow> Inl Null_dereferenced | Some v \<Rightarrow> Inr v))"

definition check_linkage :: "('k, 'v) lru_cache \<Rightarrow> 'k entry_ptr \<Rightarrow> fault + bool" where
  "check_linkage s p =
     (case node_at s p of
        Inl e \<Rightarrow> Inl e
      | Inr nd \<Rightarrow>
          (case node_at s (older nd) of
             Inl e \<Rightarrow> Inl e
           | Inr o_nd \<Rightarrow>
               if newer o_nd = p
               then (case node_at s (newer nd) of
                       Inl e \<Rightarrow> Inl e
                     | Inr n_nd \<Rightarrow> Inr (older n_nd = p))
               else Inr False))"

text \<open>
  The loop of the tests and of the example,
  \<^verbatim>\<open>for (it = cbegin(); it != cend(); it++)\<close>, collecting the positions it visits. On a
  list whose links do not lead back to the sentinel the loop does not end, so it is
  given a bound on its iterations.
\<close>

fun traverse :: "nat \<Rightarrow> ('k, 'v) lru_cache \<Rightarrow> 'k entry_ptr \<Rightarrow> fault + 'k entry_ptr list" where
  "traverse 0 s p = (if p = cend s then Inr [] else Inl Out_of_fuel)"
| "traverse (Suc n) s p =
     (if p = cend s then Inr []
      else (case increment s p of
              Inl e \<Rightarrow> Inl e
            | Inr q \<Rightarrow>
                (case traverse n s q of
                   Inl e \<Rightarrow> Inl e
                 | Inr ps \<Rightarrow> Inr (p # ps))))"

section \<open>\<^verbatim>\<open>get\<close> and the completion of a fetch\<close>

text \<open>
  \<open>call\<close> runs the body of a callback on the cache. Calling a reply records the call
  with its two arguments, then runs the body.
\<close>

definition invoke_reply ::
  "(('k, 'v) action list \<Rightarrow> ('k, 'v) lru_cache \<Rightarrow> fault + ('k, 'v) lru_cache)
     \<Rightarrow> ('k, 'v) get_reply_f \<Rightarrow> 'k entry_ptr \<Rightarrow> error_code
     \<Rightarrow> ('k, 'v) lru_cache \<Rightarrow> fault + ('k, 'v) lru_cache" where
  "invoke_reply call reply it err s =
     (case reply of Reply i body \<Rightarrow> call body (s\<lparr>trace := trace s @ [Replied i it err]\<rparr>))"

text \<open>
  The loop \<^verbatim>\<open>for (auto& pending_reply : pending_reply_iter->second)\<close> of the completion.
  It walks the vector that is stored in the pending map under \<open>key\<close>, in place, with a
  begin and an end iterator taken when the loop starts; \<open>rs0\<close> is the vector at that
  moment and \<open>rs\<close> are its elements still to visit. The entry stays in the pending map
  while the replies run, so a reply that calls \<^verbatim>\<open>get\<close> for \<open>key\<close>, with \<open>key\<close> not
  in the map, does a \<^verbatim>\<open>push_back\<close> on this very vector. That invalidates the end
  iterator of the loop, and every iterator and the reference \<^verbatim>\<open>pending_reply\<close> when the
  vector reallocates (then the elements not yet visited have been moved away and the
  loop reads freed storage). The loop has no defined behaviour from there on: after each
  reply the model looks whether the vector is still the one the loop started on, and
  stops with \<open>Iterator_invalidated\<close> if it is not.
\<close>

primrec drain ::
  "(('k, 'v) action list \<Rightarrow> ('k, 'v) lru_cache \<Rightarrow> fault + ('k, 'v) lru_cache)
     \<Rightarrow> 'k \<Rightarrow> ('k, 'v) get_reply_f list \<Rightarrow> ('k, 'v) get_reply_f list
     \<Rightarrow> 'k entry_ptr \<Rightarrow> error_code
     \<Rightarrow> ('k, 'v) lru_cache \<Rightarrow> fault + ('k, 'v) lru_cache" where
  "drain call key rs0 [] it err s = Inr s"
| "drain call key rs0 (r # rs) it err s =
     (case invoke_reply call r it err s of
        Inl e \<Rightarrow> Inl e
      | Inr s1 \<Rightarrow>
          if pending_replies s1 key = Some rs0
          then drain call key rs0 rs it err s1
          else Inl Iterator_invalidated)"

text \<open>
  The lambda that \<^verbatim>\<open>get\<close> passes to the miss handler, with its captured \<^verbatim>\<open>key\<close>.
  \<^verbatim>\<open>pending_replies_.find(key)\<close> is dereferenced without a test. The entry is erased
  after the loop, through the iterator found before it; entries of the pending map are
  nodes that stay where they are, and the iterator is modelled by the key.
\<close>

definition miss_handler_reply ::
  "(('k, 'v) action list \<Rightarrow> ('k, 'v) lru_cache \<Rightarrow> fault + ('k, 'v) lru_cache)
     \<Rightarrow> 'k \<Rightarrow> 'v option \<Rightarrow> error_code
     \<Rightarrow> ('k, 'v) lru_cache \<Rightarrow> fault + ('k, 'v) lru_cache" where
  "miss_handler_reply call key val_uptr err s =
     (case (case val_uptr of
              None \<Rightarrow> Inr (cend s, s)
            | Some v \<Rightarrow> add_entry key v s) of
        Inl e \<Rightarrow> Inl e
      | Inr (result_iter, s1) \<Rightarrow>
          (case pending_replies s1 key of
             None \<Rightarrow> Inl End_dereferenced
           | Some rs \<Rightarrow>
               (case drain call key rs rs result_iter err s1 of
                  Inl e \<Rightarrow> Inl e
                | Inr s2 \<Rightarrow> Inr (s2\<lparr>pending_replies := (pending_replies s2)(key := None)\<rparr>))))"

text \<open>
  \<^verbatim>\<open>get\<close>. The hit is looked up in \<^verbatim>\<open>map_\<close>, with \<^verbatim>\<open>KeyEquals\<close>; the reply is
  given the entry that was found. On a miss the pending entry is looked up in
  \<^verbatim>\<open>pending_replies_\<close>, with \<^verbatim>\<open>==\<close>.
\<close>

definition get ::
  "(('k, 'v) action list \<Rightarrow> ('k, 'v) lru_cache \<Rightarrow> fault + ('k, 'v) lru_cache)
     \<Rightarrow> 'k \<Rightarrow> ('k, 'v) get_reply_f
     \<Rightarrow> ('k, 'v) lru_cache \<Rightarrow> fault + ('k, 'v) lru_cache" where
  "get call key reply s =
     (case map_find s key of
        Some hit \<Rightarrow>
          (case touch (Entry hit) s of
             Inl e \<Rightarrow> Inl e
           | Inr s1 \<Rightarrow> invoke_reply call reply (Entry hit) no_error s1)
      | None \<Rightarrow>
          (case pending_replies s key of
             Some rs \<Rightarrow> Inr (s\<lparr>pending_replies := (pending_replies s)(key \<mapsto> rs @ [reply])\<rparr>)
           | None \<Rightarrow>
               call (miss_handler s key)
                 (s\<lparr>pending_replies := (pending_replies s)(key \<mapsto> [reply]),
                    outstanding := key # outstanding s,
                    trace := trace s @ [Fetch key]\<rparr>)))"

section \<open>Running callers and callbacks\<close>

text \<open>
  One operation of a caller. A completion can be called only if it has been handed out
  and not called yet; it is then used up. \<^verbatim>\<open>find\<close> is \<^verbatim>\<open>const\<close>.
\<close>

definition exec ::
  "(('k, 'v) action list \<Rightarrow> ('k, 'v) lru_cache \<Rightarrow> fault + ('k, 'v) lru_cache)
     \<Rightarrow> ('k, 'v) action \<Rightarrow> ('k, 'v) lru_cache \<Rightarrow> fault + ('k, 'v) lru_cache" where
  "exec call a s =
     (case a of
        Get key reply \<Rightarrow> get call key reply s
      | Find key \<Rightarrow> Inr s
      | Invalidate key \<Rightarrow> invalidate key s
      | Flush \<Rightarrow> Inr (flush s)
      | Complete key val_uptr err \<Rightarrow>
          if key \<in> set (outstanding s)
          then miss_handler_reply call key val_uptr err
                 (s\<lparr>outstanding := removeAll key (outstanding s)\<rparr>)
          else Inl Completion_misuse)"

primrec steps ::
  "(('k, 'v) action list \<Rightarrow> ('k, 'v) lru_cache \<Rightarrow> fault + ('k, 'v) lru_cache)
     \<Rightarrow> ('k, 'v) action list \<Rightarrow> ('k, 'v) lru_cache \<Rightarrow> fault + ('k, 'v) lru_cache" where
  "steps call [] s = Inr s"
| "steps call (a # as) s =
     (case exec call a s of
        Inl e \<Rightarrow> Inl e
      | Inr s1 \<Rightarrow> steps call as s1)"

text \<open>
  A callback body is run like a caller's operations; \<open>n\<close> bounds how deep callbacks may
  call callbacks. \<open>run n\<close> is a caller executing operations one after the other.
\<close>

primrec callback ::
  "nat \<Rightarrow> ('k, 'v) action list \<Rightarrow> ('k, 'v) lru_cache \<Rightarrow> fault + ('k, 'v) lru_cache" where
  "callback 0 = (\<lambda>body s. Inl Out_of_fuel)"
| "callback (Suc n) = steps (callback n)"

definition run ::
  "nat \<Rightarrow> ('k, 'v) action list \<Rightarrow> ('k, 'v) lru_cache \<Rightarrow> fault + ('k, 'v) lru_cache" where
  "run n = steps (callback n)"

section \<open>The invariants of the cache\<close>

text \<open>The two link fields as functions of the address; an address with no node has none.\<close>

definition older_of :: "('k, 'v) lru_cache \<Rightarrow> 'k entry_ptr \<Rightarrow> 'k entry_ptr option" where
  "older_of s p = (case node_at s p of Inl e \<Rightarrow> None | Inr nd \<Rightarrow> Some (older nd))"

definition newer_of :: "('k, 'v) lru_cache \<Rightarrow> 'k entry_ptr \<Rightarrow> 'k entry_ptr option" where
  "newer_of s p = (case node_at s p of Inl e \<Rightarrow> None | Inr nd \<Rightarrow> Some (newer nd))"

text \<open>
  \<open>chain od nw p ks q\<close>: following the older links from \<open>p\<close> visits the entries of the
  keys \<open>ks\<close> in this order and then \<open>q\<close>, and each newer link leads one step back.
\<close>

primrec chain ::
  "('k entry_ptr \<Rightarrow> 'k entry_ptr option) \<Rightarrow> ('k entry_ptr \<Rightarrow> 'k entry_ptr option)
     \<Rightarrow> 'k entry_ptr \<Rightarrow> 'k list \<Rightarrow> 'k entry_ptr \<Rightarrow> bool" where
  "chain od nw p [] q = (od p = Some q \<and> nw q = Some p)"
| "chain od nw p (k # ks) q =
     (od p = Some (Entry k) \<and> nw (Entry k) = Some p \<and> chain od nw (Entry k) ks q)"

text \<open>
  What \<^verbatim>\<open>std::unordered_map\<close> requires of \<^verbatim>\<open>KeyEquals\<close> and keeps of its keys:
  the predicate is an equivalence relation, and no two stored keys are equivalent.
\<close>

definition unique_keys :: "('k \<Rightarrow> 'k \<Rightarrow> bool) \<Rightarrow> 'k list \<Rightarrow> bool" where
  "unique_keys eq ks = (equivp eq \<and> (\<forall>a \<in> set ks. \<forall>b \<in> set ks. eq a b \<longrightarrow> a = b))"

text \<open>
  \<open>recency_list s ks\<close>: the list leads from the sentinel through the entries of \<open>ks\<close>,
  most recently used first, back to the sentinel, and \<open>ks\<close> are the keys stored in the
  map, each once.
\<close>

definition recency_list :: "('k, 'v) lru_cache \<Rightarrow> 'k list \<Rightarrow> bool" where
  "recency_list s ks =
     (chain (older_of s) (newer_of s) Sentinel ks Sentinel \<and> distinct ks \<and>
      set ks = fst ` set (lru_map s) \<and> distinct (map fst (lru_map s)) \<and>
      unique_keys (key_equals s) ks)"

text \<open>The keys of the map with their values, and the members that the list operations
  do not write.\<close>

definition contents :: "('k, 'v) lru_cache \<Rightarrow> ('k \<times> 'v option) list" where
  "contents s = map (\<lambda>kv. (fst kv, node_value (snd kv))) (lru_map s)"

definition same_rest :: "('k, 'v) lru_cache \<Rightarrow> ('k, 'v) lru_cache \<Rightarrow> bool" where
  "same_rest s s' =
     (key_equals s' = key_equals s \<and> sentinel_key s' = sentinel_key s \<and> limit s' = limit s \<and>
      miss_handler s' = miss_handler s \<and> pending_replies s' = pending_replies s \<and>
      outstanding s' = outstanding s \<and> trace s' = trace s)"

text \<open>The map is within its limit; and what a run of callbacks has to keep of that.\<close>

definition within_limit :: "('k, 'v) lru_cache \<Rightarrow> bool" where
  "within_limit s = (length (lru_map s) \<le> limit s)"

definition callback_within_limit ::
  "(('k, 'v) action list \<Rightarrow> ('k, 'v) lru_cache \<Rightarrow> fault + ('k, 'v) lru_cache) \<Rightarrow> bool" where
  "callback_within_limit call =
     (\<forall>body s s'. within_limit s \<longrightarrow> call body s = Inr s' \<longrightarrow> within_limit s')"

text \<open>
  The state between two operations of a well-behaved run of a cache with the default
  \<^verbatim>\<open>KeyEquals\<close>: the list is intact, the map is within its limit, every outstanding
  completion has its pending entry, and no key with an outstanding completion is in the
  map.
\<close>

definition cache_inv :: "('k, 'v) lru_cache \<Rightarrow> bool" where
  "cache_inv s =
     ((\<exists>ks. recency_list s ks) \<and> key_equals s = (=) \<and> length (lru_map s) \<le> limit s \<and>
      set (outstanding s) \<subseteq> dom (pending_replies s) \<and>
      set (outstanding s) \<inter> fst ` set (lru_map s) = {})"

text \<open>The keys whose pending entry is being delivered: pending, completion used up.\<close>

definition delivering :: "('k, 'v) lru_cache \<Rightarrow> 'k set" where
  "delivering s = dom (pending_replies s) - set (outstanding s)"

text \<open>
  What a run of callbacks has to keep: the invariant, the set of keys being delivered,
  and the members that are fixed at construction.
\<close>

definition kept :: "('k, 'v) lru_cache \<Rightarrow> ('k, 'v) lru_cache \<Rightarrow> bool" where
  "kept s s' =
     (cache_inv s' \<and> delivering s' = delivering s \<and> limit s' = limit s \<and>
      miss_handler s' = miss_handler s \<and> sentinel_key s' = sentinel_key s)"

definition callback_ok ::
  "(('k, 'v) action list \<Rightarrow> ('k, 'v) lru_cache \<Rightarrow> fault + ('k, 'v) lru_cache) \<Rightarrow> bool" where
  "callback_ok call = (\<forall>body s s'. cache_inv s \<longrightarrow> call body s = Inr s' \<longrightarrow> kept s s')"

text \<open>
  The faults of the pointer kind, and what a run of callbacks has to avoid: it may run
  out of fuel, misuse a completion or push onto a vector that is being delivered, but it
  does not dereference a null, end or dangling pointer.
\<close>

definition pointer_fault :: "fault \<Rightarrow> bool" where
  "pointer_fault e = (e = Null_dereferenced \<or> e = End_dereferenced \<or> e = Dangling_pointer)"

definition callback_safe ::
  "(('k, 'v) action list \<Rightarrow> ('k, 'v) lru_cache \<Rightarrow> fault + ('k, 'v) lru_cache) \<Rightarrow> bool" where
  "callback_safe call = (\<forall>body s e. cache_inv s \<longrightarrow> call body s = Inl e \<longrightarrow> \<not> pointer_fault e)"

section \<open>The completion as specified, and example inputs\<close>

text \<open>
  The specification of the cache words the completion in three steps: insert the
  value, look up and remove the Pending Wait-List entry, invoke the queued replies. This
  is the completion with the steps in that order, to be compared with
  \<open>miss_handler_reply\<close>. The replies are those of the entry that was taken out of the
  pending map; no \<^verbatim>\<open>get\<close> reaches that vector any more, so the loop over it is the
  plain one.
\<close>

primrec deliver ::
  "(('k, 'v) action list \<Rightarrow> ('k, 'v) lru_cache \<Rightarrow> fault + ('k, 'v) lru_cache)
     \<Rightarrow> ('k, 'v) get_reply_f list \<Rightarrow> 'k entry_ptr \<Rightarrow> error_code
     \<Rightarrow> ('k, 'v) lru_cache \<Rightarrow> fault + ('k, 'v) lru_cache" where
  "deliver call [] it err s = Inr s"
| "deliver call (r # rs) it err s =
     (case invoke_reply call r it err s of
        Inl e \<Rightarrow> Inl e
      | Inr s1 \<Rightarrow> deliver call rs it err s1)"

definition miss_handler_reply_as_specified ::
  "(('k, 'v) action list \<Rightarrow> ('k, 'v) lru_cache \<Rightarrow> fault + ('k, 'v) lru_cache)
     \<Rightarrow> 'k \<Rightarrow> 'v option \<Rightarrow> error_code
     \<Rightarrow> ('k, 'v) lru_cache \<Rightarrow> fault + ('k, 'v) lru_cache" where
  "miss_handler_reply_as_specified call key val_uptr err s =
     (case (case val_uptr of
              None \<Rightarrow> Inr (cend s, s)
            | Some v \<Rightarrow> add_entry key v s) of
        Inl e \<Rightarrow> Inl e
      | Inr (result_iter, s1) \<Rightarrow>
          (case pending_replies s1 key of
             None \<Rightarrow> Inl End_dereferenced
           | Some rs \<Rightarrow>
               deliver call rs result_iter err
                 (s1\<lparr>pending_replies := (pending_replies s1)(key := None)\<rparr>)))"

text \<open>
  Two miss handlers over numeric keys: \<open>deferred\<close> keeps the completion for later and
  returns; \<open>immediate\<close> calls it before it returns, as the miss handler of the tests
  does, with ten times the key as the value.
\<close>

definition deferred :: "nat \<Rightarrow> (nat, nat) action list" where
  "deferred k = []"

definition immediate :: "nat \<Rightarrow> (nat, nat) action list" where
  "immediate k = [Complete k (Some (10 * k)) no_error]"

text \<open>
  A \<^verbatim>\<open>KeyEquals\<close> on numeric keys that is coarser than \<^verbatim>\<open>==\<close>: two keys are the
  same key of the cache when they have the same last digit (as two strings are for a
  cache that ignores case).
\<close>

definition same_last_digit :: "nat \<Rightarrow> nat \<Rightarrow> bool" where
  "same_last_digit a b = (a mod 10 = b mod 10)"

text \<open>
  The cache of capacity 2 after the run of the tests: keys 1, 2 and 3 fetched at once,
  key 1 evicted by the third insertion, then a hit on key 2.
\<close>

definition state_after_tests :: "(nat, nat) lru_cache" where
  "state_after_tests =
     \<lparr>key_equals = (=), sentinel_key = 0,
      sentinel = \<lparr>node_value = None, older = Entry 2, newer = Entry 3\<rparr>,
      lru_map = [(3, \<lparr>node_value = Some 30, older = Sentinel, newer = Entry 2\<rparr>),
                 (2, \<lparr>node_value = Some 20, older = Entry 3, newer = Sentinel\<rparr>)],
      limit = 2, miss_handler = immediate, pending_replies = (\<lambda>k. None),
      outstanding = [],
      trace = [Fetch 1, Replied 0 (Entry 1) no_error, Fetch 2, Replied 1 (Entry 2) no_error,
               Fetch 3, Replied 2 (Entry 3) no_error, Replied 3 (Entry 2) no_error]\<rparr>"

text \<open>
  A caller that fetches keys one after the other: for each pair a \<^verbatim>\<open>get\<close> of
  the key with a reply that does nothing, then the completion of that fetch with the
  value and no error.
\<close>

definition fetch_each :: "('k \<times> 'v) list \<Rightarrow> ('k, 'v) action list" where
  "fetch_each kvs =
     concat (map (\<lambda>kv. [Get (fst kv) (Reply 0 []), Complete (fst kv) (Some (snd kv)) no_error]) kvs)"

text \<open>
  States of a cache of capacity 2 with the default \<^verbatim>\<open>KeyEquals\<close> and the \<open>deferred\<close>
  handler: keys 1 and 2 fetched and completed; then two \<^verbatim>\<open>get\<close> calls for key 3
  waiting for its fetch; an empty cache with one \<^verbatim>\<open>get\<close> of key 1 waiting, whose
  reply calls \<^verbatim>\<open>get\<close> for key 1 again; and the same with a second \<^verbatim>\<open>get\<close> of key 1
  waiting behind it.
\<close>

definition state_two_cached :: "(nat, nat) lru_cache" where
  "state_two_cached =
     \<lparr>key_equals = (=), sentinel_key = 0,
      sentinel = \<lparr>node_value = None, older = Entry 2, newer = Entry 1\<rparr>,
      lru_map = [(2, \<lparr>node_value = Some 20, older = Entry 1, newer = Sentinel\<rparr>),
                 (1, \<lparr>node_value = Some 10, older = Sentinel, newer = Entry 2\<rparr>)],
      limit = 2, miss_handler = deferred, pending_replies = (\<lambda>k. None),
      outstanding = [],
      trace = [Fetch 1, Replied 0 (Entry 1) no_error, Fetch 2, Replied 1 (Entry 2) no_error]\<rparr>"

definition state_fetching :: "(nat, nat) lru_cache" where
  "state_fetching =
     state_two_cached
       \<lparr>pending_replies := (\<lambda>k. None)(3 \<mapsto> [Reply 2 [], Reply 3 []]),
        outstanding := [3],
        trace := trace state_two_cached @ [Fetch 3]\<rparr>"

definition state_one_waiter :: "(nat, nat) lru_cache" where
  "state_one_waiter =
     (construct (=) 0 deferred 2)
       \<lparr>pending_replies := (\<lambda>k. None)(1 \<mapsto> [Reply 0 [Get 1 (Reply 1 [])]]),
        outstanding := [1],
        trace := [Fetch 1]\<rparr>"

definition state_two_waiters :: "(nat, nat) lru_cache" where
  "state_two_waiters =
     (construct (=) 0 deferred 2)
       \<lparr>pending_replies := (\<lambda>k. None)(1 \<mapsto> [Reply 0 [Get 1 (Reply 2 [])], Reply 1 []]),
        outstanding := [1],
        trace := [Fetch 1]\<rparr>"

text \<open>
  States of a cache of capacity 3 whose \<^verbatim>\<open>KeyEquals\<close> is \<open>same_last_digit\<close>, with the
  \<open>deferred\<close> handler. Keys 1 and 11 are one key of this cache. In the first state
  \<^verbatim>\<open>get\<close> has been called for 1 and then for 11. The second state is reached from
  the first when the fetch of 1 completes with the value 10, key 2 is fetched with the
  value 20, and the fetch of 11 completes with the value 110.
\<close>

definition state_two_fetches :: "(nat, nat) lru_cache" where
  "state_two_fetches =
     (construct same_last_digit 0 deferred 3)
       \<lparr>pending_replies := (\<lambda>k. None)(1 \<mapsto> [Reply 0 []], 11 \<mapsto> [Reply 1 []]),
        outstanding := [11, 1],
        trace := [Fetch 1, Fetch 11]\<rparr>"

definition state_relinked :: "(nat, nat) lru_cache" where
  "state_relinked =
     \<lparr>key_equals = same_last_digit, sentinel_key = 0,
      sentinel = \<lparr>node_value = None, older = Entry 1, newer = Entry 1\<rparr>,
      lru_map = [(2, \<lparr>node_value = Some 20, older = Entry 1, newer = Entry 1\<rparr>),
                 (1, \<lparr>node_value = Some 10, older = Entry 2, newer = Sentinel\<rparr>)],
      limit = 3, miss_handler = deferred, pending_replies = (\<lambda>k. None),
      outstanding = [],
      trace = [Fetch 1, Fetch 11, Replied 0 (Entry 1) no_error, Fetch 2,
               Replied 2 (Entry 2) no_error, Replied 1 (Entry 1) no_error]\<rparr>"

section \<open>The list operations keep the recency list\<close>

lemma map_of_upd_nodes:
  "map_of (map (\<lambda>(k', n). (k', if k' = k then f n else n)) m) k'' =
     map_option (\<lambda>n. if k'' = k then f n else n) (map_of m k'')"
  by (induction m) auto

lemma contents_upd_nodes:
  "(\<And>n. node_value (f n) = node_value n) \<Longrightarrow>
   map (\<lambda>kv. (fst kv, node_value (snd kv))) (map (\<lambda>(k', n). (k', if k' = k then f n else n)) m)
     = map (\<lambda>kv. (fst kv, node_value (snd kv))) m"
  by (induction m) auto

lemma same_rest_refl: "same_rest s s"
  by (simp add: same_rest_def)

lemma same_rest_trans: "same_rest s t \<Longrightarrow> same_rest t u \<Longrightarrow> same_rest s u"
  by (simp add: same_rest_def)

lemma unique_keys_subset: "unique_keys eq ks \<Longrightarrow> set ks' \<subseteq> set ks \<Longrightarrow> unique_keys eq ks'"
  by (auto simp: unique_keys_def)

lemma unique_keys_Cons:
  assumes "unique_keys eq ks" and "\<forall>k \<in> set ks. \<not> eq k key"
  shows "unique_keys eq (key # ks)"
proof -
  from assms(1) have e: "equivp eq"
    by (simp add: unique_keys_def)
  then have "\<not> eq key k" if "k \<in> set ks" for k
    using assms(2) that by (auto dest: equivp_symp)
  with assms show ?thesis
    by (auto simp: unique_keys_def)
qed

lemma unique_keys_equality: "unique_keys (=) ks"
  by (simp add: unique_keys_def identity_equivp)

text \<open>\<^verbatim>\<open>map_.find\<close> on a map whose keys are unique up to \<^verbatim>\<open>KeyEquals\<close>.\<close>

lemma map_find_None_iff:
  "(map_find s key = None) = (\<forall>k \<in> fst ` set (lru_map s). \<not> key_equals s k key)"
  by (auto simp: map_find_def find_None_iff)

lemma map_find_SomeD:
  assumes "map_find s key = Some k"
  shows "k \<in> fst ` set (lru_map s) \<and> key_equals s k key"
proof -
  from assms obtain kv where f: "find (\<lambda>kv. key_equals s (fst kv) key) (lru_map s) = Some kv"
      and kv: "fst kv = k"
    by (auto simp: map_find_def)
  from f have "kv \<in> set (lru_map s)"
    by (metis find_Some_iff nth_mem)
  moreover from f have "key_equals s (fst kv) key"
    by (auto simp: find_Some_iff)
  ultimately show ?thesis
    using kv by auto
qed

lemma map_find_unique:
  assumes "unique_keys (key_equals s) ks" and "set ks = fst ` set (lru_map s)"
    and "k \<in> set ks" and "key_equals s k key"
  shows "map_find s key = Some k"
proof (cases "map_find s key")
  case None
  with assms(2,3,4) show ?thesis
    by (auto simp: map_find_None_iff)
next
  case (Some k')
  from map_find_SomeD [OF Some] assms(2) have k': "k' \<in> set ks" "key_equals s k' key"
    by simp_all
  from assms(1) have e: "equivp (key_equals s)"
    by (simp add: unique_keys_def)
  from e assms(4) have "key_equals s key k"
    by (rule equivp_symp)
  with e k'(2) have "key_equals s k' k"
    by (rule equivp_transp)
  with assms(1,3) k'(1) have "k' = k"
    by (simp add: unique_keys_def)
  with Some show ?thesis by simp
qed

lemma map_find_equality:
  "key_equals s = (=) \<Longrightarrow>
   map_find s key = (if key \<in> fst ` set (lru_map s) then Some key else None)"
proof (cases "map_find s key")
  case None
  assume "key_equals s = (=)"
  with None show ?thesis
    by (auto simp: map_find_None_iff)
next
  case (Some k)
  assume "key_equals s = (=)"
  with map_find_SomeD [OF Some] Some show ?thesis
    by auto
qed

lemma older_newer_dom: "(newer_of s p = None) = (older_of s p = None)"
  by (simp add: older_of_def newer_of_def split: sum.splits)

lemma older_of_Sentinel: "older_of s Sentinel = Some (older (sentinel s))"
  by (simp add: older_of_def node_at_def)

lemma newer_of_Sentinel: "newer_of s Sentinel = Some (newer (sentinel s))"
  by (simp add: newer_of_def node_at_def)

lemma older_of_Null: "older_of s Null = None"
  by (simp add: older_of_def node_at_def)

lemma older_of_Entry_iff: "(older_of s (Entry k) = None) = (k \<notin> fst ` set (lru_map s))"
  by (simp add: older_of_def node_at_def map_of_eq_None_iff [symmetric] split: option.splits)

lemma modify_node_ok:
  assumes "older_of s p = Some x"
  shows "\<exists>s'. modify_node p f s = Inr s' \<and>
           (\<forall>q. node_at s' q = (if q = p then map_sum id f (node_at s q) else node_at s q)) \<and>
           ((\<forall>n. node_value (f n) = node_value n) \<longrightarrow> contents s' = contents s) \<and>
           same_rest s s'"
proof (cases p)
  case Null
  with assms show ?thesis by (simp add: older_of_Null)
next
  case Sentinel
  then show ?thesis
    by (auto simp: modify_node_def node_at_def contents_def same_rest_def
             split: entry_ptr.splits)
next
  case (Entry k)
  with assms obtain nd where nd: "map_of (lru_map s) k = Some nd"
    by (auto simp: older_of_def node_at_def split: option.splits)
  show ?thesis
    using nd Entry
    by (auto simp: modify_node_def node_at_def contents_def same_rest_def
                   map_of_upd_nodes contents_upd_nodes
             split: entry_ptr.splits option.splits)
qed

lemma set_older:
  assumes "older_of s p = Some x"
  shows "\<exists>s'. modify_node p (\<lambda>n. n\<lparr>older := q\<rparr>) s = Inr s' \<and>
           older_of s' = (older_of s)(p \<mapsto> q) \<and> newer_of s' = newer_of s \<and>
           contents s' = contents s \<and> same_rest s s'"
proof -
  from modify_node_ok [OF assms, of "\<lambda>n. n\<lparr>older := q\<rparr>"]
  obtain s' where m: "modify_node p (\<lambda>n. n\<lparr>older := q\<rparr>) s = Inr s'"
    and n: "\<And>r. node_at s' r = (if r = p then map_sum id (\<lambda>n. n\<lparr>older := q\<rparr>) (node_at s r) else node_at s r)"
    and c: "contents s' = contents s" and r: "same_rest s s'"
    by auto
  have "older_of s' r = ((older_of s)(p \<mapsto> q)) r" for r
    using assms by (auto simp: older_of_def n split: sum.splits)
  moreover have "newer_of s' r = newer_of s r" for r
    by (auto simp: newer_of_def n split: sum.splits)
  ultimately show ?thesis using m c r by (auto simp: fun_eq_iff)
qed

lemma set_newer:
  assumes "older_of s p = Some x"
  shows "\<exists>s'. modify_node p (\<lambda>n. n\<lparr>newer := q\<rparr>) s = Inr s' \<and>
           newer_of s' = (newer_of s)(p \<mapsto> q) \<and> older_of s' = older_of s \<and>
           contents s' = contents s \<and> same_rest s s'"
proof -
  from modify_node_ok [OF assms, of "\<lambda>n. n\<lparr>newer := q\<rparr>"]
  obtain s' where m: "modify_node p (\<lambda>n. n\<lparr>newer := q\<rparr>) s = Inr s'"
    and n: "\<And>r. node_at s' r = (if r = p then map_sum id (\<lambda>n. n\<lparr>newer := q\<rparr>) (node_at s r) else node_at s r)"
    and c: "contents s' = contents s" and r: "same_rest s s'"
    by auto
  have "newer_of s' r = ((newer_of s)(p \<mapsto> q)) r" for r
    using assms by (auto simp: newer_of_def older_of_def n split: sum.splits)
  moreover have "older_of s' r = older_of s r" for r
    by (auto simp: older_of_def n split: sum.splits)
  ultimately show ?thesis using m c r by (auto simp: fun_eq_iff)
qed


lemma keys_contents: "map fst (contents s) = map fst (lru_map s)"
  by (simp add: contents_def comp_def)

lemma extract_ok:
  assumes "older_of s p = Some pb" and "newer_of s p = Some pa"
    and "older_of s pa = Some x" and "older_of s pb = Some y"
  shows "\<exists>s'. extract p s = Inr s' \<and>
           older_of s' = (older_of s)(pa \<mapsto> pb) \<and> newer_of s' = (newer_of s)(pb \<mapsto> pa) \<and>
           contents s' = contents s \<and> same_rest s s'"
proof -
  from assms(1,2) obtain nd where nd: "node_at s p = Inr nd" "older nd = pb" "newer nd = pa"
    by (auto simp: older_of_def newer_of_def split: sum.splits)
  from set_older [OF assms(3), of pb] obtain s1 where
    s1: "modify_node pa (\<lambda>n. n\<lparr>older := pb\<rparr>) s = Inr s1"
      "older_of s1 = (older_of s)(pa \<mapsto> pb)" "newer_of s1 = newer_of s"
      "contents s1 = contents s" "same_rest s s1"
    by blast
  from assms(4) s1(2) obtain y' where "older_of s1 pb = Some y'"
    by (cases "pb = pa") auto
  from set_newer [OF this, of pa] obtain s2 where
    s2: "modify_node pb (\<lambda>n. n\<lparr>newer := pa\<rparr>) s1 = Inr s2"
      "newer_of s2 = (newer_of s1)(pb \<mapsto> pa)" "older_of s2 = older_of s1"
      "contents s2 = contents s1" "same_rest s1 s2"
    by blast
  have "extract p s = Inr s2"
    using nd s1(1) s2(1) by (simp add: extract_def)
  then show ?thesis
    using s1 s2 same_rest_trans by auto
qed

lemma insert_at_head_ok:
  assumes "older_of s p = Some x" and "older_of s (older (sentinel s)) = Some y"
  shows "\<exists>s'. insert_at_head p s = Inr s' \<and>
           older_of s' = (older_of s)(p \<mapsto> older (sentinel s), Sentinel \<mapsto> p) \<and>
           newer_of s' = (newer_of s)(p \<mapsto> Sentinel, older (sentinel s) \<mapsto> p) \<and>
           contents s' = contents s \<and> same_rest s s'"
proof -
  define front where "front = older (sentinel s)"
  from set_older [OF assms(1), of front] obtain s1 where
    s1: "modify_node p (\<lambda>n. n\<lparr>older := front\<rparr>) s = Inr s1"
      "older_of s1 = (older_of s)(p \<mapsto> front)" "newer_of s1 = newer_of s"
      "contents s1 = contents s" "same_rest s s1"
    by blast
  have "older_of s1 p = Some front" using s1(2) by simp
  from set_newer [OF this, of Sentinel] obtain s2 where
    s2: "modify_node p (\<lambda>n. n\<lparr>newer := Sentinel\<rparr>) s1 = Inr s2"
      "newer_of s2 = (newer_of s1)(p \<mapsto> Sentinel)" "older_of s2 = older_of s1"
      "contents s2 = contents s1" "same_rest s1 s2"
    by blast
  from assms(2) s1(2) s2(3) obtain y' where "older_of s2 front = Some y'"
    by (cases "front = p") (auto simp: front_def)
  from set_newer [OF this, of p] obtain s3 where
    s3: "modify_node front (\<lambda>n. n\<lparr>newer := p\<rparr>) s2 = Inr s3"
      "newer_of s3 = (newer_of s2)(front \<mapsto> p)" "older_of s3 = older_of s2"
      "contents s3 = contents s2" "same_rest s2 s3"
    by blast
  from set_older [of s3 Sentinel _ p] obtain s4 where
    s4: "modify_node Sentinel (\<lambda>n. n\<lparr>older := p\<rparr>) s3 = Inr s4"
      "older_of s4 = (older_of s3)(Sentinel \<mapsto> p)" "newer_of s4 = newer_of s3"
      "contents s4 = contents s3" "same_rest s3 s4"
    using older_of_Sentinel by blast
  from s4(1) have s4_eq: "s4 = s3\<lparr>sentinel := (sentinel s3)\<lparr>older := p\<rparr>\<rparr>"
    by (simp add: modify_node_def)
  have "insert_at_head p s = Inr s4"
    using s1(1) s2(1) s3(1) s4_eq by (simp add: insert_at_head_def Let_def front_def)
  moreover have "same_rest s s4"
    using s1(5) s2(5) s3(5) s4(5) same_rest_trans by blast
  ultimately show ?thesis
    using s1 s2 s3 s4 by (simp add: front_def)
qed

lemma chain_frame:
  "chain od nw p ks q \<Longrightarrow> \<forall>x \<in> set (p # map Entry ks). od' x = od x \<Longrightarrow>
   \<forall>y \<in> set (map Entry ks @ [q]). nw' y = nw y \<Longrightarrow> chain od' nw' p ks q"
  by (induction ks arbitrary: p) auto

lemma chain_append:
  "chain od nw p (as @ k # bs) q = (chain od nw p as (Entry k) \<and> chain od nw (Entry k) bs q)"
  by (induction as arbitrary: p) auto

lemma chain_last:
  "chain od nw p ks q \<Longrightarrow>
   od (last (p # map Entry ks)) = Some q \<and> nw q = Some (last (p # map Entry ks))"
  by (induction ks arbitrary: p) auto

lemma chain_hd:
  "chain od nw p ks q \<Longrightarrow>
   od p = Some (hd (map Entry ks @ [q])) \<and> nw (hd (map Entry ks @ [q])) = Some p"
  by (cases ks) auto

lemma chain_valid: "chain od nw p ks q \<Longrightarrow> k \<in> set ks \<Longrightarrow> \<exists>x. od (Entry k) = Some x"
  by (induction ks arbitrary: p) (auto, (metis chain_hd)+)

lemma chain_splice:
  assumes "chain od nw p as (Entry k)" and "chain od nw (Entry k) bs q"
    and "distinct (as @ k # bs)" and "p \<notin> Entry ` set (as @ k # bs)"
    and "q \<notin> Entry ` set (as @ k # bs)"
  shows "chain (od(last (p # map Entry as) \<mapsto> hd (map Entry bs @ [q])))
               (nw(hd (map Entry bs @ [q]) \<mapsto> last (p # map Entry as))) p (as @ bs) q"
  using assms
proof (induction as arbitrary: p)
  case Nil
  show ?case
  proof (cases bs)
    case Nil
    then show ?thesis by simp
  next
    case (Cons b bs')
    with Nil.prems have "chain od nw (Entry b) bs' q"
      by simp
    then have "chain (od(p \<mapsto> Entry b)) (nw(Entry b \<mapsto> p)) (Entry b) bs' q"
      using Nil.prems Cons by (elim chain_frame) auto
    then show ?thesis using Cons by (simp add: fun_upd_def)
  qed
next
  case (Cons a as')
  from Cons.prems have 1: "od p = Some (Entry a)" "nw (Entry a) = Some p"
    "chain od nw (Entry a) as' (Entry k)"
    by simp_all
  have "chain (od(last (Entry a # map Entry as') \<mapsto> hd (map Entry bs @ [q])))
               (nw(hd (map Entry bs @ [q]) \<mapsto> last (Entry a # map Entry as'))) (Entry a) (as' @ bs) q"
    using Cons.prems by (intro Cons.IH 1) auto
  moreover have "last (Entry a # map Entry as') \<noteq> p"
    using Cons.prems(4) by (cases as' rule: rev_cases) auto
  moreover have "hd (map Entry bs @ [q]) \<noteq> Entry a"
    using Cons.prems(3,5) by (cases bs) auto
  ultimately show ?case
    using 1 by (simp add: fun_upd_def)
qed

lemma chain_push:
  assumes "chain od nw Sentinel ks Sentinel" and "k \<notin> set ks" and "distinct ks"
  shows "chain (od(Entry k \<mapsto> hd (map Entry ks @ [Sentinel]), Sentinel \<mapsto> Entry k))
               (nw(Entry k \<mapsto> Sentinel, hd (map Entry ks @ [Sentinel]) \<mapsto> Entry k))
               Sentinel (k # ks) Sentinel"
proof (cases ks)
  case Nil
  then show ?thesis by simp
next
  case (Cons b bs)
  with assms have "chain od nw (Entry b) bs Sentinel" and "distinct [k, b]" and "k \<notin> set bs"
    and "b \<notin> set bs"
    by auto
  then have "chain (od(Entry k \<mapsto> Entry b, Sentinel \<mapsto> Entry k))
               (nw(Entry k \<mapsto> Sentinel, Entry b \<mapsto> Entry k)) (Entry b) bs Sentinel"
    by (elim chain_frame) auto
  then show ?thesis using Cons assms by (simp add: fun_upd_def)
qed


declare enforce_limit.simps [simp del]

lemma recency_length: "recency_list s ks \<Longrightarrow> length (lru_map s) = length ks"
proof -
  assume r: "recency_list s ks"
  then have "card (set ks) = card (set (map fst (lru_map s)))"
    by (simp add: recency_list_def)
  then show ?thesis
    using r by (metis distinct_card length_map recency_list_def)
qed

lemma recency_list_cong:
  assumes "chain (older_of s') (newer_of s') Sentinel ks Sentinel" and "distinct ks"
    and "map fst (contents s') = xs" and "set ks = set xs" and "distinct xs"
    and "unique_keys (key_equals s') ks"
  shows "recency_list s' ks"
  using assms by (auto simp: recency_list_def keys_contents simp flip: set_map)

lemma recency_unique: "recency_list s ks \<Longrightarrow> unique_keys (key_equals s) ks"
  by (simp add: recency_list_def)

lemma recency_equivp: "recency_list s ks \<Longrightarrow> equivp (key_equals s)"
  by (simp add: recency_list_def unique_keys_def)

lemma map_find_hit:
  assumes "recency_list s ks" and "k \<in> set ks" and "key_equals s k key"
  shows "map_find s key = Some k"
  using assms by (intro map_find_unique [where ks = ks]) (simp_all add: recency_list_def)

lemma map_find_self:
  assumes "recency_list s ks" and "k \<in> set ks"
  shows "map_find s k = Some k"
  using assms recency_equivp [OF assms(1)] by (intro map_find_hit) (auto dest: equivp_reflp)

lemma map_find_miss:
  assumes "recency_list s ks"
  shows "(map_find s key = None) = (\<forall>k \<in> set ks. \<not> key_equals s k key)"
  using assms by (simp add: map_find_None_iff recency_list_def)

lemma recency_keys: "recency_list s ks \<Longrightarrow> set ks = set (map fst (contents s)) \<and> distinct (map fst (contents s)) \<and> distinct ks"
  by (auto simp: recency_list_def keys_contents)

lemma extract_recency:
  assumes "recency_list s (as @ k # bs)"
  shows "\<exists>s'. extract (Entry k) s = Inr s' \<and>
           chain (older_of s') (newer_of s') Sentinel (as @ bs) Sentinel \<and>
           (\<exists>x. older_of s' (Entry k) = Some x) \<and>
           contents s' = contents s \<and> same_rest s s'"
proof -
  define pa where "pa = last (Sentinel # map Entry as)"
  define pb where "pb = hd (map Entry bs @ [Sentinel])"
  from assms have c1: "chain (older_of s) (newer_of s) Sentinel as (Entry k)"
    and c2: "chain (older_of s) (newer_of s) (Entry k) bs Sentinel"
    and d: "distinct (as @ k # bs)"
    by (simp_all add: recency_list_def chain_append)
  from chain_last [OF c1] have a: "older_of s pa = Some (Entry k)" "newer_of s (Entry k) = Some pa"
    by (simp_all add: pa_def)
  from chain_hd [OF c2] have b: "older_of s (Entry k) = Some pb" "newer_of s pb = Some (Entry k)"
    by (simp_all add: pb_def)
  from b(2) obtain y where y: "older_of s pb = Some y"
    using older_newer_dom [of s pb] by (cases "older_of s pb") auto
  from extract_ok [OF b(1) a(2) a(1) y] obtain s' where
    s': "extract (Entry k) s = Inr s'" "older_of s' = (older_of s)(pa \<mapsto> pb)"
      "newer_of s' = (newer_of s)(pb \<mapsto> pa)" "contents s' = contents s" "same_rest s s'"
    by blast
  have "chain (older_of s') (newer_of s') Sentinel (as @ bs) Sentinel"
    unfolding s'(2,3) pa_def pb_def
    using c1 c2 d by (intro chain_splice) auto
  moreover have "\<exists>x. older_of s' (Entry k) = Some x"
    using s'(2) b(1) by (cases "Entry k = pa") auto
  ultimately show ?thesis using s' by blast
qed

lemma map_of_erase:
  "map_of (filter (\<lambda>kv. fst kv \<noteq> k) m) k' = (if k' = k then None else map_of m k')"
  by (induction m) auto

lemma links_erase:
  "older_of (s\<lparr>lru_map := filter (\<lambda>kv. fst kv \<noteq> k) (lru_map s)\<rparr>) = (older_of s)(Entry k := None)"
  "newer_of (s\<lparr>lru_map := filter (\<lambda>kv. fst kv \<noteq> k) (lru_map s)\<rparr>) = (newer_of s)(Entry k := None)"
  by (auto simp: older_of_def newer_of_def node_at_def map_of_erase fun_eq_iff
           split: entry_ptr.splits option.splits)

lemma contents_erase:
  "contents (s\<lparr>lru_map := filter (\<lambda>kv. fst kv \<noteq> k) (lru_map s)\<rparr>)
     = filter (\<lambda>kv. fst kv \<noteq> k) (contents s)"
  by (simp add: contents_def filter_map comp_def)

lemma remove_recency:
  assumes "recency_list s (as @ k # bs)"
  shows "\<exists>s'. remove (Some k) s = Inr s' \<and> recency_list s' (as @ bs) \<and>
           contents s' = filter (\<lambda>kv. fst kv \<noteq> k) (contents s) \<and> same_rest s s'"
proof -
  from extract_recency [OF assms] obtain s1 where
    s1: "extract (Entry k) s = Inr s1"
      "chain (older_of s1) (newer_of s1) Sentinel (as @ bs) Sentinel"
      "contents s1 = contents s" "same_rest s s1"
    by blast
  define s2 where "s2 = s1\<lparr>lru_map := filter (\<lambda>kv. fst kv \<noteq> k) (lru_map s1)\<rparr>"
  have rem: "remove (Some k) s = Inr s2"
    using s1(1) by (simp add: remove_def s2_def)
  from assms have d: "distinct (as @ k # bs)"
    and keys: "set (as @ k # bs) = set (map fst (contents s))" "distinct (map fst (contents s))"
    using recency_keys by blast+
  have c: "contents s2 = filter (\<lambda>kv. fst kv \<noteq> k) (contents s)"
    by (simp add: s2_def contents_erase s1(3))
  have "chain (older_of s2) (newer_of s2) Sentinel (as @ bs) Sentinel"
    unfolding s2_def links_erase
    using s1(2) d by (elim chain_frame) auto
  moreover have "set (as @ bs) = set (map fst (contents s2))"
    using d keys(1) unfolding c by (auto simp: image_iff)
  moreover have "distinct (map fst (contents s2))"
    unfolding c using keys(2) by (simp add: distinct_map_filter)
  moreover have "unique_keys (key_equals s2) (as @ bs)"
  proof -
    have "key_equals s2 = key_equals s"
      using s1(4) by (simp add: same_rest_def s2_def)
    with recency_unique [OF assms] show ?thesis
      by (auto elim: unique_keys_subset)
  qed
  ultimately have "recency_list s2 (as @ bs)"
    using d by (intro recency_list_cong [where xs = "map fst (contents s2)"]) auto
  moreover have "same_rest s s2"
    using s1(4) by (simp add: same_rest_def s2_def)
  ultimately show ?thesis using rem c by blast
qed

lemma front_valid:
  assumes "chain (older_of s) (newer_of s) Sentinel ks Sentinel"
  shows "older (sentinel s) = hd (map Entry ks @ [Sentinel]) \<and>
         (\<exists>y. older_of s (older (sentinel s)) = Some y)"
proof -
  from chain_hd [OF assms] have h: "older_of s Sentinel = Some (hd (map Entry ks @ [Sentinel]))"
    "newer_of s (hd (map Entry ks @ [Sentinel])) = Some Sentinel"
    by simp_all
  from h(1) have 1: "older (sentinel s) = hd (map Entry ks @ [Sentinel])"
    by (simp add: older_of_Sentinel)
  from h(2) have "\<exists>y. older_of s (hd (map Entry ks @ [Sentinel])) = Some y"
    using older_newer_dom [of s "hd (map Entry ks @ [Sentinel])"]
    by (cases "older_of s (hd (map Entry ks @ [Sentinel]))") auto
  with 1 show ?thesis by simp
qed

lemma insert_at_head_chain:
  assumes "chain (older_of s) (newer_of s) Sentinel ks Sentinel" and "distinct ks"
    and "k \<notin> set ks" and "older_of s (Entry k) = Some x"
  shows "\<exists>s'. insert_at_head (Entry k) s = Inr s' \<and>
           chain (older_of s') (newer_of s') Sentinel (k # ks) Sentinel \<and>
           contents s' = contents s \<and> same_rest s s'"
proof -
  from front_valid [OF assms(1)] obtain y where
    f: "older (sentinel s) = hd (map Entry ks @ [Sentinel])"
       "older_of s (older (sentinel s)) = Some y"
    by blast
  from insert_at_head_ok [OF assms(4) f(2)] obtain s' where
    s': "insert_at_head (Entry k) s = Inr s'"
      "older_of s' = (older_of s)(Entry k \<mapsto> older (sentinel s), Sentinel \<mapsto> Entry k)"
      "newer_of s' = (newer_of s)(Entry k \<mapsto> Sentinel, older (sentinel s) \<mapsto> Entry k)"
      "contents s' = contents s" "same_rest s s'"
    by blast
  have "chain (older_of s') (newer_of s') Sentinel (k # ks) Sentinel"
    unfolding s'(2,3) f(1) using assms(1,3,2) by (rule chain_push)
  then show ?thesis using s' by blast
qed

lemma touch_recency:
  assumes "recency_list s (as @ k # bs)"
  shows "\<exists>s'. touch (Entry k) s = Inr s' \<and> recency_list s' (k # as @ bs) \<and>
           contents s' = contents s \<and> same_rest s s'"
proof -
  from extract_recency [OF assms] obtain s1 x where
    s1: "extract (Entry k) s = Inr s1"
      "chain (older_of s1) (newer_of s1) Sentinel (as @ bs) Sentinel"
      "older_of s1 (Entry k) = Some x"
      "contents s1 = contents s" "same_rest s s1"
    by blast
  from assms have d: "distinct (as @ k # bs)"
    and keys: "set (as @ k # bs) = set (map fst (contents s))" "distinct (map fst (contents s))"
    using recency_keys by blast+
  from d have "distinct (as @ bs)" "k \<notin> set (as @ bs)" by auto
  from insert_at_head_chain [OF s1(2) this s1(3)] obtain s2 where
    s2: "insert_at_head (Entry k) s1 = Inr s2"
      "chain (older_of s2) (newer_of s2) Sentinel (k # as @ bs) Sentinel"
      "contents s2 = contents s1" "same_rest s1 s2"
    by blast
  have u: "unique_keys (key_equals s2) (k # as @ bs)"
  proof -
    have "key_equals s2 = key_equals s"
      using s1(5) s2(4) by (simp add: same_rest_def)
    with recency_unique [OF assms] show ?thesis
      by (auto elim: unique_keys_subset)
  qed
  have "touch (Entry k) s = Inr s2"
    using s1(1) s2(1) by (simp add: touch_def)
  moreover have "recency_list s2 (k # as @ bs)"
    using s2(2) d keys u by (intro recency_list_cong [where xs = "map fst (contents s)"])
      (auto simp: s2(3) s1(4))
  ultimately show ?thesis
    using s1 s2 same_rest_trans by (metis)
qed

lemma evict_recency:
  assumes "recency_list s (ks @ [k])"
  shows "\<exists>s'. evict_lru s = Inr s' \<and> recency_list s' ks \<and>
           contents s' = filter (\<lambda>kv. fst kv \<noteq> k) (contents s) \<and> same_rest s s'"
proof -
  from assms have c: "chain (older_of s) (newer_of s) Sentinel (ks @ [k]) Sentinel"
    and kin: "k \<in> fst ` set (lru_map s)"
    by (auto simp: recency_list_def)
  from chain_last [OF c] have "newer (sentinel s) = Entry k"
    by (simp add: newer_of_Sentinel)
  moreover from kin obtain nd where "map_of (lru_map s) k = Some nd"
    by (metis map_of_eq_None_iff not_Some_eq)
  moreover have "map_find s k = Some k"
    using assms by (rule map_find_self) simp
  ultimately have "evict_lru s = remove (Some k) s"
    by (simp add: evict_lru_def first_at_def)
  with remove_recency [of s ks k "[]"] assms show ?thesis by simp
qed


lemma enforce_recency:
  "recency_list s ks \<Longrightarrow>
   \<exists>s'. enforce_limit s = Inr s' \<and> recency_list s' (take (limit s) ks) \<and>
        contents s' = filter (\<lambda>kv. fst kv \<in> set (take (limit s) ks)) (contents s) \<and>
        same_rest s s'"
proof (induction ks arbitrary: s rule: rev_induct)
  case Nil
  then have "lru_map s = []"
    by (simp add: recency_list_def)
  then have "enforce_limit s = Inr s" "contents s = []"
    by (simp_all add: enforce_limit.simps contents_def)
  with Nil show ?case
    by (auto simp: same_rest_refl)
next
  case (snoc k ks)
  note len = recency_length [OF snoc.prems]
  show ?case
  proof (cases "length (lru_map s) > limit s")
    case True
    from evict_recency [OF snoc.prems] obtain s1 where
      s1: "evict_lru s = Inr s1" "recency_list s1 ks"
        "contents s1 = filter (\<lambda>kv. fst kv \<noteq> k) (contents s)" "same_rest s s1"
      by blast
    from snoc.IH [OF s1(2)] obtain s2 where
      s2: "enforce_limit s1 = Inr s2" "recency_list s2 (take (limit s1) ks)"
        "contents s2 = filter (\<lambda>kv. fst kv \<in> set (take (limit s1) ks)) (contents s1)"
        "same_rest s1 s2"
      by blast
    have lim: "limit s1 = limit s" using s1(4) by (simp add: same_rest_def)
    have tk: "take (limit s) (ks @ [k]) = take (limit s) ks"
      using True len by simp
    have "enforce_limit s = Inr s2"
      using True s1(1) s2(1) by (subst enforce_limit.simps) simp
    moreover have "k \<notin> set ks"
      using snoc.prems by (simp add: recency_list_def)
    then have "contents s2 = filter (\<lambda>kv. fst kv \<in> set (take (limit s) (ks @ [k]))) (contents s)"
      unfolding s2(3) s1(3) tk lim
      by (auto intro!: filter_cong dest: in_set_takeD)
    ultimately show ?thesis
      using s2(2) s1(4) s2(4) same_rest_trans unfolding tk lim by blast
  next
    case False
    then have "enforce_limit s = Inr s"
      by (subst enforce_limit.simps) simp
    moreover from False len have tk: "take (limit s) (ks @ [k]) = ks @ [k]"
      by simp
    moreover have "filter (\<lambda>kv. fst kv \<in> set (ks @ [k])) (contents s) = contents s"
      using recency_keys [OF snoc.prems] by (auto simp: filter_id_conv)
    ultimately show ?thesis
      using snoc.prems by (auto simp: same_rest_refl simp del: take_append)
  qed
qed

lemma links_emplace:
  assumes "map_find s k = None" and "equivp (key_equals s)"
  shows "\<exists>s0. emplace k v s = (k, s0) \<and>
           older_of s0 = (older_of s)(Entry k \<mapsto> Null) \<and>
           newer_of s0 = (newer_of s)(Entry k \<mapsto> Null) \<and>
           contents s0 = (k, Some v) # contents s \<and> same_rest s s0 \<and>
           sentinel s0 = sentinel s"
proof -
  define s0 where
    "s0 = s\<lparr>lru_map := (k, \<lparr>node_value = Some v, older = Null, newer = Null\<rparr>) # lru_map s\<rparr>"
  from assms(2) have "key_equals s k k"
    by (rule equivp_reflp)
  with assms(1) have "k \<notin> fst ` set (lru_map s)"
    by (auto simp: map_find_None_iff)
  then have n: "map_of (lru_map s) k = None"
    by (simp add: map_of_eq_None_iff)
  have "emplace k v s = (k, s0)"
    using assms(1) by (simp add: emplace_def s0_def)
  moreover have "older_of s0 = (older_of s)(Entry k \<mapsto> Null)"
    using n by (auto simp: s0_def older_of_def node_at_def fun_eq_iff
                     split: entry_ptr.splits option.splits)
  moreover have "newer_of s0 = (newer_of s)(Entry k \<mapsto> Null)"
    using n by (auto simp: s0_def newer_of_def node_at_def fun_eq_iff
                     split: entry_ptr.splits option.splits)
  moreover have "contents s0 = (k, Some v) # contents s"
    by (simp add: s0_def contents_def)
  moreover have "same_rest s s0" "sentinel s0 = sentinel s"
    by (simp_all add: s0_def same_rest_def)
  ultimately show ?thesis by blast
qed

lemma add_entry_recency:
  assumes "recency_list s ks" and "map_find s k = None"
  shows "\<exists>s'. add_entry k v s = Inr (Entry k, s') \<and>
           recency_list s' (take (limit s) (k # ks)) \<and>
           contents s' = filter (\<lambda>kv. fst kv \<in> set (take (limit s) (k # ks)))
                           ((k, Some v) # contents s) \<and>
           same_rest s s'"
proof -
  from assms(1) have c: "chain (older_of s) (newer_of s) Sentinel ks Sentinel"
    and d: "distinct ks" and e: "equivp (key_equals s)"
    and u: "unique_keys (key_equals s) ks"
    by (auto simp: recency_list_def unique_keys_def)
  from assms have ne: "\<forall>k' \<in> set ks. \<not> key_equals s k' k"
    by (simp add: map_find_miss)
  from e have "key_equals s k k"
    by (rule equivp_reflp)
  with ne have kn: "k \<notin> set ks"
    by auto
  from links_emplace [OF assms(2) e, of v] obtain s0 where
    s0: "emplace k v s = (k, s0)"
      "older_of s0 = (older_of s)(Entry k \<mapsto> Null)"
      "newer_of s0 = (newer_of s)(Entry k \<mapsto> Null)"
      "contents s0 = (k, Some v) # contents s" "same_rest s s0"
    by blast
  have c0: "chain (older_of s0) (newer_of s0) Sentinel ks Sentinel"
    unfolding s0(2,3) using c kn by (elim chain_frame) auto
  have "older_of s0 (Entry k) = Some Null"
    by (simp add: s0(2))
  from insert_at_head_chain [OF c0 d kn this] obtain s1 where
    s1: "insert_at_head (Entry k) s0 = Inr s1"
      "chain (older_of s1) (newer_of s1) Sentinel (k # ks) Sentinel"
      "contents s1 = contents s0" "same_rest s0 s1"
    by blast
  have "key_equals s1 = key_equals s"
    using s0(5) s1(4) by (simp add: same_rest_def)
  with unique_keys_Cons [OF u ne] have "unique_keys (key_equals s1) (k # ks)"
    by simp
  with recency_keys [OF assms(1)] kn
  have "recency_list s1 (k # ks)"
    using s1(2) by (intro recency_list_cong [where xs = "k # map fst (contents s)"])
      (auto simp: s1(3) s0(4))
  from enforce_recency [OF this] obtain s2 where
    s2: "enforce_limit s1 = Inr s2" "recency_list s2 (take (limit s1) (k # ks))"
      "contents s2 = filter (\<lambda>kv. fst kv \<in> set (take (limit s1) (k # ks))) (contents s1)"
      "same_rest s1 s2"
    by blast
  have lim: "limit s1 = limit s"
    using s0(5) s1(4) by (simp add: same_rest_def)
  have "add_entry k v s = Inr (Entry k, s2)"
    using s0(1) s1(1) s2(1) by (simp add: add_entry_def)
  moreover have "same_rest s s2"
    using s0(5) s1(4) s2(4) same_rest_trans by blast
  ultimately show ?thesis
    using s2(2,3) unfolding lim s1(3) s0(4) by blast
qed

lemma recency_construct: "equivp eq \<Longrightarrow> recency_list (construct eq key0 handler lim) []"
  by (simp add: recency_list_def construct_def older_of_def newer_of_def node_at_def
                unique_keys_def)

lemma recency_flush: "equivp (key_equals s) \<Longrightarrow> recency_list (flush s) []"
  by (simp add: recency_list_def flush_def older_of_def newer_of_def node_at_def
                unique_keys_def)

lemma invalidate_recency:
  assumes "recency_list s ks"
  shows "\<exists>s'. invalidate k s = Inr s' \<and>
           recency_list s' (case map_find s k of None \<Rightarrow> ks | Some fit \<Rightarrow> removeAll fit ks) \<and>
           contents s' = (case map_find s k of None \<Rightarrow> contents s
                          | Some fit \<Rightarrow> filter (\<lambda>kv. fst kv \<noteq> fit) (contents s)) \<and>
           same_rest s s'"
proof (cases "map_find s k")
  case (Some fit)
  from map_find_SomeD [OF Some] assms have "fit \<in> set ks"
    by (simp add: recency_list_def)
  then obtain as bs where ks: "ks = as @ fit # bs"
    by (meson split_list)
  with assms have "fit \<notin> set as" "fit \<notin> set bs"
    by (auto simp: recency_list_def)
  then have ra: "removeAll fit ks = as @ bs"
    by (simp add: ks)
  have "invalidate k s = remove (Some fit) s"
    using Some by (simp add: invalidate_def)
  moreover from remove_recency [of s as fit bs] assms ks
  obtain s' where "remove (Some fit) s = Inr s'" "recency_list s' (as @ bs)"
    "contents s' = filter (\<lambda>kv. fst kv \<noteq> fit) (contents s)" "same_rest s s'"
    by blast
  ultimately show ?thesis
    using ra Some by auto
next
  case None
  then have "invalidate k s = Inr s"
    by (simp add: invalidate_def)
  with None assms show ?thesis
    by (simp add: same_rest_refl)
qed


section \<open>Every run keeps the map within its limit\<close>

text \<open>
  This needs nothing of the list or of the keys: every insertion into the map is followed
  by \<^verbatim>\<open>enforce_limit\<close>, whose loop ends only when the map is within the limit, and no
  other operation makes the map larger.
\<close>

lemma within_limit_upd:
  "within_limit (s\<lparr>trace := t\<rparr>) = within_limit s"
  "within_limit (s\<lparr>pending_replies := pr\<rparr>) = within_limit s"
  "within_limit (s\<lparr>outstanding := ou\<rparr>) = within_limit s"
  by (simp_all add: within_limit_def)

lemma modify_node_size:
  "modify_node p f s = Inr s' \<Longrightarrow> length (lru_map s') = length (lru_map s) \<and> limit s' = limit s"
  by (auto simp: modify_node_def split: entry_ptr.splits option.splits)

lemma extract_size:
  "extract p s = Inr s' \<Longrightarrow> length (lru_map s') = length (lru_map s) \<and> limit s' = limit s"
  by (auto simp: extract_def split: sum.splits dest!: modify_node_size)

lemma insert_at_head_size:
  "insert_at_head p s = Inr s' \<Longrightarrow> length (lru_map s') = length (lru_map s) \<and> limit s' = limit s"
  by (auto simp: insert_at_head_def Let_def split: sum.splits dest!: modify_node_size)

lemma touch_within:
  assumes "touch p s = Inr s'" and "within_limit s"
  shows "within_limit s'"
proof -
  from assms(1) obtain s1 where "extract p s = Inr s1" "insert_at_head p s1 = Inr s'"
    by (auto simp: touch_def split: sum.splits)
  from extract_size [OF this(1)] insert_at_head_size [OF this(2)] assms(2) show ?thesis
    by (simp add: within_limit_def)
qed

lemma remove_within:
  assumes "remove it s = Inr s'" and "within_limit s"
  shows "within_limit s'"
proof -
  from assms(1) obtain k s1 where s1: "extract (Entry k) s = Inr s1"
    and s': "s' = s1\<lparr>lru_map := filter (\<lambda>kv. fst kv \<noteq> k) (lru_map s1)\<rparr>"
    by (auto simp: remove_def split: option.splits sum.splits)
  have "length (filter (\<lambda>kv. fst kv \<noteq> k) (lru_map s1)) \<le> length (lru_map s1)"
    by (rule length_filter_le)
  with extract_size [OF s1] assms(2) show ?thesis
    by (simp add: within_limit_def s')
qed

lemma enforce_limit_within: "enforce_limit s = Inr s' \<Longrightarrow> within_limit s'"
proof (induction s rule: enforce_limit.induct)
  case (1 s)
  show ?case
  proof (cases "length (lru_map s) > limit s")
    case True
    with "1.prems" obtain s1 where "evict_lru s = Inr s1" "enforce_limit s1 = Inr s'"
      by (subst (asm) enforce_limit.simps) (auto split: sum.splits)
    with True "1.IH" show ?thesis by blast
  next
    case False
    with "1.prems" have "s' = s"
      by (subst (asm) enforce_limit.simps) simp
    with False show ?thesis
      by (simp add: within_limit_def)
  qed
qed

lemma add_entry_within: "add_entry key v s = Inr (it, s') \<Longrightarrow> within_limit s'"
  by (auto simp: add_entry_def split: prod.splits sum.splits dest: enforce_limit_within)

lemma invoke_reply_within:
  assumes "callback_within_limit call" and "within_limit s"
    and "invoke_reply call r it err s = Inr s'"
  shows "within_limit s'"
proof -
  obtain i body where r: "r = Reply i body" by (cases r)
  from assms(3) have "call body (s\<lparr>trace := trace s @ [Replied i it err]\<rparr>) = Inr s'"
    by (simp add: invoke_reply_def r)
  moreover have "within_limit (s\<lparr>trace := trace s @ [Replied i it err]\<rparr>)"
    using assms(2) by (simp add: within_limit_upd)
  ultimately show ?thesis
    using assms(1) unfolding callback_within_limit_def by blast
qed

lemma drain_within:
  assumes "callback_within_limit call"
  shows "within_limit s \<Longrightarrow> drain call key rs0 rs it err s = Inr s' \<Longrightarrow> within_limit s'"
proof (induction rs arbitrary: s)
  case Nil
  then show ?case by simp
next
  case (Cons r rs)
  from Cons.prems(2) obtain s1 where 1: "invoke_reply call r it err s = Inr s1"
    and 2: "drain call key rs0 rs it err s1 = Inr s'"
    by (auto split: sum.splits if_splits)
  from invoke_reply_within [OF assms Cons.prems(1) 1] have "within_limit s1" .
  from Cons.IH [OF this 2] show ?case .
qed

lemma miss_handler_reply_within:
  assumes "callback_within_limit call" and "val_uptr = None \<longrightarrow> within_limit s"
    and "miss_handler_reply call key val_uptr err s = Inr s'"
  shows "within_limit s'"
proof -
  from assms(3) obtain it s1 rs s2 where
    1: "(case val_uptr of None \<Rightarrow> Inr (cend s, s) | Some v \<Rightarrow> add_entry key v s) = Inr (it, s1)"
    and 2: "drain call key rs rs it err s1 = Inr s2"
    and s': "s' = s2\<lparr>pending_replies := (pending_replies s2)(key := None)\<rparr>"
    by (auto simp: miss_handler_reply_def split: sum.splits option.splits prod.splits)
  have "within_limit s1"
  proof (cases val_uptr)
    case None
    with 1 assms(2) show ?thesis by simp
  next
    case (Some v)
    with 1 show ?thesis by (auto dest: add_entry_within)
  qed
  from drain_within [OF assms(1) this 2] show ?thesis
    by (simp add: s' within_limit_upd)
qed

lemma get_within:
  assumes "callback_within_limit call" and "within_limit s" and "get call key reply s = Inr s'"
  shows "within_limit s'"
proof (cases "map_find s key")
  case (Some hit)
  with assms(3) obtain s1 where 1: "touch (Entry hit) s = Inr s1"
    and 2: "invoke_reply call reply (Entry hit) no_error s1 = Inr s'"
    by (auto simp: get_def split: sum.splits)
  from touch_within [OF 1 assms(2)] have "within_limit s1" .
  from invoke_reply_within [OF assms(1) this 2] show ?thesis .
next
  case None
  show ?thesis
  proof (cases "pending_replies s key")
    case (Some rs)
    with assms(3) None
    have "s' = s\<lparr>pending_replies := (pending_replies s)(key \<mapsto> rs @ [reply])\<rparr>"
      by (simp add: get_def)
    with assms(2) show ?thesis by (simp add: within_limit_upd)
  next
    case pn: None
    define s1 where "s1 = s\<lparr>pending_replies := (pending_replies s)(key \<mapsto> [reply]),
                  outstanding := key # outstanding s,
                  trace := trace s @ [Fetch key]\<rparr>"
    from assms(3) None pn have "call (miss_handler s key) s1 = Inr s'"
      by (simp add: get_def s1_def)
    moreover have "within_limit s1"
      using assms(2) by (simp add: s1_def within_limit_def)
    ultimately show ?thesis
      using assms(1) unfolding callback_within_limit_def by blast
  qed
qed

lemma exec_within:
  assumes "callback_within_limit call" and "within_limit s" and "exec call a s = Inr s'"
  shows "within_limit s'"
proof (cases a)
  case (Get key reply)
  with assms(3) have "get call key reply s = Inr s'"
    by (simp add: exec_def)
  with assms(1,2) show ?thesis by (rule get_within)
next
  case (Find key)
  with assms(2,3) show ?thesis by (simp add: exec_def)
next
  case (Invalidate key)
  with assms(3) have i: "invalidate key s = Inr s'"
    by (simp add: exec_def)
  show ?thesis
  proof (cases "map_find s key")
    case None
    with i assms(2) show ?thesis by (simp add: invalidate_def)
  next
    case (Some fit)
    with i have "remove (Some fit) s = Inr s'" by (simp add: invalidate_def)
    from remove_within [OF this assms(2)] show ?thesis .
  qed
next
  case Flush
  with assms(3) show ?thesis
    by (auto simp: exec_def flush_def within_limit_def)
next
  case (Complete key val_uptr err)
  with assms(3)
  have "miss_handler_reply call key val_uptr err
          (s\<lparr>outstanding := removeAll key (outstanding s)\<rparr>) = Inr s'"
    by (simp add: exec_def split: if_splits)
  moreover have "within_limit (s\<lparr>outstanding := removeAll key (outstanding s)\<rparr>)"
    using assms(2) by (simp add: within_limit_upd)
  ultimately show ?thesis
    using assms(1) by (intro miss_handler_reply_within) auto
qed

lemma steps_within:
  assumes "callback_within_limit call"
  shows "within_limit s \<Longrightarrow> steps call as s = Inr s' \<Longrightarrow> within_limit s'"
proof (induction as arbitrary: s)
  case Nil
  then show ?case by simp
next
  case (Cons a as)
  from Cons.prems(2) obtain s1 where 1: "exec call a s = Inr s1"
    and 2: "steps call as s1 = Inr s'"
    by (auto split: sum.splits)
  from exec_within [OF assms Cons.prems(1) 1] have "within_limit s1" .
  from Cons.IH [OF this 2] show ?case .
qed

lemma callback_within_limit_callback: "callback_within_limit (callback n)"
proof (induction n)
  case 0
  show ?case by (simp add: callback_within_limit_def)
next
  case (Suc n)
  show ?case
    unfolding callback_within_limit_def using steps_within [OF Suc] by auto
qed

lemma run_within: "within_limit s \<Longrightarrow> run n as s = Inr s' \<Longrightarrow> within_limit s'"
  unfolding run_def using callback_within_limit_callback by (rule steps_within)

lemma complete_value_within:
  assumes "exec (callback n) (Complete key (Some v) err) s = Inr s'"
  shows "within_limit s'"
proof -
  from assms
  have "miss_handler_reply (callback n) key (Some v) err
          (s\<lparr>outstanding := removeAll key (outstanding s)\<rparr>) = Inr s'"
    by (simp add: exec_def split: if_splits)
  then show ?thesis
    by (rule miss_handler_reply_within [OF callback_within_limit_callback, rotated]) simp
qed

section \<open>With the default \<^verbatim>\<open>KeyEquals\<close>, every run that returns keeps the invariants\<close>

lemma kept_refl: "cache_inv s \<Longrightarrow> kept s s"
  by (simp add: kept_def)

lemma kept_trans: "kept s t \<Longrightarrow> kept t u \<Longrightarrow> kept s u"
  by (simp add: kept_def)

lemma recency_list_eq:
  assumes "sentinel s' = sentinel s" and "lru_map s' = lru_map s"
    and "key_equals s' = key_equals s"
  shows "recency_list s' ks = recency_list s ks"
proof -
  have "node_at s' = node_at s"
    using assms by (auto simp: fun_eq_iff node_at_def split: entry_ptr.splits)
  then have "older_of s' = older_of s" "newer_of s' = newer_of s"
    by (simp_all add: fun_eq_iff older_of_def newer_of_def)
  then show ?thesis
    using assms by (simp add: recency_list_def)
qed

lemma recency_list_upd:
  "recency_list (s\<lparr>trace := t\<rparr>) ks = recency_list s ks"
  "recency_list (s\<lparr>pending_replies := pr\<rparr>) ks = recency_list s ks"
  "recency_list (s\<lparr>outstanding := ou\<rparr>) ks = recency_list s ks"
  by (rule recency_list_eq; simp)+

lemma kept_trace: "cache_inv s \<Longrightarrow> kept s (s\<lparr>trace := t\<rparr>)"
  by (simp add: kept_def cache_inv_def delivering_def recency_list_upd)

lemma kept_list_op:
  assumes "cache_inv s" and "recency_list s' ks'" and "same_rest s s'"
    and "length ks' \<le> limit s" and "set ks' \<inter> set (outstanding s) = {}"
  shows "kept s s'"
proof -
  from assms(2) have "length (lru_map s') = length ks'" "fst ` set (lru_map s') = set ks'"
    by (simp_all add: recency_length recency_list_def)
  with assms show ?thesis
    by (auto simp: kept_def cache_inv_def delivering_def same_rest_def)
qed

lemma inv_recency:
  assumes "cache_inv s"
  obtains ks where "recency_list s ks" and "length ks \<le> limit s"
    and "set ks \<inter> set (outstanding s) = {}" and "set ks = fst ` set (lru_map s)"
proof -
  from assms obtain ks where r: "recency_list s ks"
    by (auto simp: cache_inv_def)
  moreover from r have "length ks = length (lru_map s)"
    by (simp add: recency_length)
  moreover from r have "set ks = fst ` set (lru_map s)"
    by (simp add: recency_list_def)
  ultimately show thesis
    using assms that [of ks] by (auto simp: cache_inv_def)
qed

lemma invoke_reply_kept:
  assumes "callback_ok call" and "cache_inv s" and "invoke_reply call r it err s = Inr s'"
  shows "kept s s'"
proof -
  obtain i body where r: "r = Reply i body" by (cases r)
  from assms(3) have "call body (s\<lparr>trace := trace s @ [Replied i it err]\<rparr>) = Inr s'"
    by (simp add: invoke_reply_def r)
  moreover have k: "kept s (s\<lparr>trace := trace s @ [Replied i it err]\<rparr>)"
    using assms(2) by (rule kept_trace)
  moreover from k have "cache_inv (s\<lparr>trace := trace s @ [Replied i it err]\<rparr>)"
    by (simp add: kept_def)
  ultimately have "kept (s\<lparr>trace := trace s @ [Replied i it err]\<rparr>) s'"
    using assms(1) unfolding callback_ok_def by blast
  with k show ?thesis by (rule kept_trans)
qed

lemma drain_kept:
  assumes "callback_ok call"
  shows "cache_inv s \<Longrightarrow> drain call key rs0 rs it err s = Inr s' \<Longrightarrow> kept s s'"
proof (induction rs arbitrary: s)
  case Nil
  then show ?case by (simp add: kept_refl)
next
  case (Cons r rs)
  from Cons.prems(2) obtain s1 where 1: "invoke_reply call r it err s = Inr s1"
    and 2: "drain call key rs0 rs it err s1 = Inr s'"
    by (auto split: sum.splits if_splits)
  from invoke_reply_kept [OF assms Cons.prems(1) 1] have k: "kept s s1" .
  then have "cache_inv s1" by (simp add: kept_def)
  from Cons.IH [OF this 2] k show ?case
    using kept_trans by blast
qed

lemma miss_handler_reply_kept:
  assumes "callback_ok call" and "cache_inv s" and "key \<in> dom (pending_replies s)"
    and "key \<notin> set (outstanding s)" and "key \<notin> fst ` set (lru_map s)"
    and "miss_handler_reply call key val_uptr err s = Inr s'"
  shows "cache_inv s' \<and> delivering s' = delivering s - {key} \<and> limit s' = limit s \<and>
         miss_handler s' = miss_handler s \<and> sentinel_key s' = sentinel_key s"
proof -
  have "\<exists>it s1. (case val_uptr of None \<Rightarrow> Inr (cend s, s) | Some v \<Rightarrow> add_entry key v s) = Inr (it, s1)
          \<and> kept s s1 \<and> pending_replies s1 = pending_replies s"
  proof (cases val_uptr)
    case None
    then show ?thesis using assms(2) by (simp add: kept_refl)
  next
    case (Some v)
    from assms(2) obtain ks where ks: "recency_list s ks" "length ks \<le> limit s"
      "set ks \<inter> set (outstanding s) = {}" "set ks = fst ` set (lru_map s)"
      by (rule inv_recency)
    with assms(5) have "key \<notin> set ks" by simp
    moreover from assms(2) have "key_equals s = (=)"
      by (simp add: cache_inv_def)
    ultimately have "map_find s key = None"
      using ks(4) by (simp add: map_find_equality)
    from add_entry_recency [OF ks(1) this, of v] obtain s1 where
      s1: "add_entry key v s = Inr (Entry key, s1)"
        "recency_list s1 (take (limit s) (key # ks))" "same_rest s s1"
      by blast
    have "set (take (limit s) (key # ks)) \<inter> set (outstanding s) = {}"
      using ks(3) assms(4) by (auto dest!: in_set_takeD)
    with kept_list_op [OF assms(2) s1(2,3)] have "kept s s1"
      by simp
    with s1 Some show ?thesis
      by (auto simp: same_rest_def)
  qed
  then obtain it s1 where
    1: "(case val_uptr of None \<Rightarrow> Inr (cend s, s) | Some v \<Rightarrow> add_entry key v s) = Inr (it, s1)"
    and k1: "kept s s1" and p1: "pending_replies s1 = pending_replies s"
    by blast
  from assms(3) p1 obtain rs where rs: "pending_replies s1 key = Some rs"
    by auto
  from assms(6) 1 rs obtain s2 where 2: "drain call key rs rs it err s1 = Inr s2"
    and s': "s' = s2\<lparr>pending_replies := (pending_replies s2)(key := None)\<rparr>"
    by (auto simp: miss_handler_reply_def split: sum.splits)
  from k1 have "cache_inv s1" by (simp add: kept_def)
  from drain_kept [OF assms(1) this 2] have k2: "kept s1 s2" .
  with k1 have k: "kept s s2" by (rule kept_trans)
  from assms(3,4) have "key \<in> delivering s" by (simp add: delivering_def)
  with k have kd: "key \<in> delivering s2" by (simp add: kept_def)
  then have "key \<notin> set (outstanding s2)" by (simp add: delivering_def)
  with k show ?thesis
    unfolding s' by (auto simp: kept_def cache_inv_def delivering_def recency_list_upd)
qed

lemma get_kept:
  assumes "callback_ok call" and "cache_inv s" and "get call key reply s = Inr s'"
  shows "kept s s'"
proof -
  from assms(2) obtain ks where ks: "recency_list s ks" "length ks \<le> limit s"
    "set ks \<inter> set (outstanding s) = {}" "set ks = fst ` set (lru_map s)"
    by (rule inv_recency)
  from assms(2) have "key_equals s = (=)"
    by (simp add: cache_inv_def)
  note map_find_iff = map_find_equality [OF this]
  show ?thesis
  proof (cases "key \<in> fst ` set (lru_map s)")
    case True
    with ks(4) obtain as bs where sp: "ks = as @ key # bs"
      by (metis split_list)
    from touch_recency [OF ks(1) [unfolded sp]] obtain s1 where
      s1: "touch (Entry key) s = Inr s1" "recency_list s1 (key # as @ bs)" "same_rest s s1"
      by blast
    from ks(2,3) have "length (key # as @ bs) \<le> limit s"
      "set (key # as @ bs) \<inter> set (outstanding s) = {}"
      by (auto simp: sp)
    with kept_list_op [OF assms(2) s1(2,3)] have k1: "kept s s1"
      by blast
    from assms(3) True s1(1) have "invoke_reply call reply (Entry key) no_error s1 = Inr s'"
      by (simp add: get_def map_find_iff)
    moreover from k1 have "cache_inv s1" by (simp add: kept_def)
    ultimately have "kept s1 s'"
      using assms(1) invoke_reply_kept by blast
    with k1 show ?thesis by (rule kept_trans)
  next
    case False
    show ?thesis
    proof (cases "pending_replies s key")
      case (Some rs)
      with assms(3) False
      have "s' = s\<lparr>pending_replies := (pending_replies s)(key \<mapsto> rs @ [reply])\<rparr>"
        by (simp add: get_def map_find_iff)
      moreover have "insert key (dom (pending_replies s)) = dom (pending_replies s)"
        using Some by auto
      ultimately show ?thesis
        using assms(2)
        by (auto simp: kept_def cache_inv_def delivering_def recency_list_upd)
    next
      case None
      define s1 where "s1 = s\<lparr>pending_replies := (pending_replies s)(key \<mapsto> [reply]),
                    outstanding := key # outstanding s,
                    trace := trace s @ [Fetch key]\<rparr>"
      from assms(3) False None have c: "call (miss_handler s key) s1 = Inr s'"
        by (simp add: get_def map_find_iff s1_def)
      have k1: "kept s s1"
        using assms(2) False None
        by (auto simp: kept_def cache_inv_def delivering_def recency_list_upd s1_def)
      then have "cache_inv s1" by (simp add: kept_def)
      with assms(1) c have "kept s1 s'"
        unfolding callback_ok_def by blast
      with k1 show ?thesis by (rule kept_trans)
    qed
  qed
qed

lemma exec_kept:
  assumes "callback_ok call" and "cache_inv s" and "exec call a s = Inr s'"
  shows "kept s s'"
proof (cases a)
  case (Get key reply)
  with assms(3) have "get call key reply s = Inr s'"
    by (simp add: exec_def)
  with assms(1,2) show ?thesis by (rule get_kept)
next
  case (Find key)
  with assms(3) have "s' = s"
    by (simp add: exec_def)
  with assms(2) show ?thesis by (simp add: kept_refl)
next
  case (Invalidate key)
  from assms(2) obtain ks where ks: "recency_list s ks" "length ks \<le> limit s"
    "set ks \<inter> set (outstanding s) = {}" "set ks = fst ` set (lru_map s)"
    by (rule inv_recency)
  define ks' where "ks' = (case map_find s key of None \<Rightarrow> ks | Some fit \<Rightarrow> removeAll fit ks)"
  from invalidate_recency [OF ks(1), of key] obtain s1 where
    s1: "invalidate key s = Inr s1" "recency_list s1 ks'" "same_rest s s1"
    unfolding ks'_def by blast
  have "length ks' \<le> length ks" "set ks' \<subseteq> set ks"
    by (auto simp: ks'_def length_removeAll_less_eq split: option.splits)
  then have "length ks' \<le> limit s" "set ks' \<inter> set (outstanding s) = {}"
    using ks(2,3) by auto
  then have "kept s s1"
    using kept_list_op [OF assms(2) s1(2,3)] by blast
  moreover from assms(3) Invalidate s1(1) have "s' = s1"
    by (simp add: exec_def)
  ultimately show ?thesis by simp
next
  case Flush
  from assms(2) have "equivp (key_equals s)"
    by (simp add: cache_inv_def identity_equivp)
  then have "recency_list (flush s) []"
    by (rule recency_flush)
  moreover have "same_rest s (flush s)" by (simp add: same_rest_def flush_def)
  ultimately have "kept s (flush s)"
    using kept_list_op [OF assms(2), of "flush s" "[]"] by simp
  moreover from assms(3) Flush have "s' = flush s"
    by (simp add: exec_def)
  ultimately show ?thesis by simp
next
  case (Complete key val_uptr err)
  define s0 where "s0 = s\<lparr>outstanding := removeAll key (outstanding s)\<rparr>"
  from assms(3) Complete have out: "key \<in> set (outstanding s)"
    by (simp add: exec_def split: if_splits)
  with assms(3) Complete have m: "miss_handler_reply call key val_uptr err s0 = Inr s'"
    by (simp add: exec_def s0_def)
  from assms(2) have sub: "set (outstanding s) \<subseteq> dom (pending_replies s)"
    and dis: "set (outstanding s) \<inter> fst ` set (lru_map s) = {}"
    and len: "length (lru_map s) \<le> limit s"
    and rl: "\<exists>ks. recency_list s ks"
    and eq: "key_equals s = (=)"
    by (simp_all add: cache_inv_def)
  from sub out have p1: "key \<in> dom (pending_replies s0)"
    by (auto simp: s0_def)
  have p2: "key \<notin> set (outstanding s0)"
    by (simp add: s0_def)
  from dis out have p3: "key \<notin> fst ` set (lru_map s0)"
    by (auto simp: s0_def)
  have inv0: "cache_inv s0"
    unfolding cache_inv_def using sub dis len rl eq
    by (auto simp: s0_def recency_list_upd)
  have d0: "delivering s0 = insert key (delivering s)"
    using sub out by (auto simp: delivering_def s0_def)
  from miss_handler_reply_kept [OF assms(1) inv0 p1 p2 p3 m]
  have "cache_inv s'" "delivering s' = delivering s0 - {key}" "limit s' = limit s0"
    "miss_handler s' = miss_handler s0" "sentinel_key s' = sentinel_key s0"
    by simp_all
  moreover have "key \<notin> delivering s"
    using out by (simp add: delivering_def)
  moreover have "limit s0 = limit s" "miss_handler s0 = miss_handler s"
    "sentinel_key s0 = sentinel_key s"
    by (simp_all add: s0_def)
  ultimately show ?thesis
    unfolding kept_def d0 by auto
qed

lemma steps_kept:
  assumes "callback_ok call"
  shows "cache_inv s \<Longrightarrow> steps call as s = Inr s' \<Longrightarrow> kept s s'"
proof (induction as arbitrary: s)
  case Nil
  then show ?case by (simp add: kept_refl)
next
  case (Cons a as)
  from Cons.prems(2) obtain s1 where 1: "exec call a s = Inr s1"
    and 2: "steps call as s1 = Inr s'"
    by (auto split: sum.splits)
  from exec_kept [OF assms Cons.prems(1) 1] have k: "kept s s1" .
  then have "cache_inv s1" by (simp add: kept_def)
  from Cons.IH [OF this 2] k show ?case
    using kept_trans by blast
qed

lemma callback_ok_callback: "callback_ok (callback n)"
proof (induction n)
  case 0
  show ?case by (simp add: callback_ok_def)
next
  case (Suc n)
  show ?case
    unfolding callback_ok_def using steps_kept [OF Suc] by auto
qed

lemma run_kept: "cache_inv s \<Longrightarrow> run n as s = Inr s' \<Longrightarrow> kept s s'"
  unfolding run_def using callback_ok_callback by (rule steps_kept)

lemma cache_inv_construct: "cache_inv (construct (=) key0 handler lim)"
proof -
  have "recency_list (construct (=) key0 handler lim) []"
    by (rule recency_construct) (rule identity_equivp)
  then show ?thesis
    unfolding cache_inv_def by (auto simp: construct_def)
qed


section \<open>With the default \<^verbatim>\<open>KeyEquals\<close>, no run dereferences a bad pointer\<close>

lemma invoke_reply_safe:
  assumes "callback_safe call" and "cache_inv s" and "invoke_reply call r it err s = Inl e"
  shows "\<not> pointer_fault e"
proof -
  obtain i body where r: "r = Reply i body" by (cases r)
  from assms(3) have "call body (s\<lparr>trace := trace s @ [Replied i it err]\<rparr>) = Inl e"
    by (simp add: invoke_reply_def r)
  moreover from kept_trace [OF assms(2)]
  have "cache_inv (s\<lparr>trace := trace s @ [Replied i it err]\<rparr>)"
    by (simp add: kept_def)
  ultimately show ?thesis
    using assms(1) unfolding callback_safe_def by blast
qed

lemma drain_safe:
  assumes "callback_ok call" and "callback_safe call"
  shows "cache_inv s \<Longrightarrow> drain call key rs0 rs it err s = Inl e \<Longrightarrow> \<not> pointer_fault e"
proof (induction rs arbitrary: s)
  case Nil
  then show ?case by simp
next
  case (Cons r rs)
  show ?case
  proof (cases "invoke_reply call r it err s")
    case (Inl e')
    with Cons.prems(2) have "e' = e" by simp
    with Inl invoke_reply_safe [OF assms(2) Cons.prems(1)] show ?thesis by blast
  next
    case (Inr s1)
    show ?thesis
    proof (cases "pending_replies s1 key = Some rs0")
      case True
      with Inr Cons.prems(2) have d: "drain call key rs0 rs it err s1 = Inl e" by simp
      from invoke_reply_kept [OF assms(1) Cons.prems(1) Inr] have "cache_inv s1"
        by (simp add: kept_def)
      from Cons.IH [OF this d] show ?thesis .
    next
      case False
      with Inr Cons.prems(2) have "e = Iterator_invalidated" by simp
      then show ?thesis by (simp add: pointer_fault_def)
    qed
  qed
qed

lemma miss_handler_reply_safe:
  assumes "callback_ok call" and "callback_safe call" and "cache_inv s"
    and "key \<in> dom (pending_replies s)"
    and "key \<notin> set (outstanding s)" and "key \<notin> fst ` set (lru_map s)"
    and "miss_handler_reply call key val_uptr err s = Inl e"
  shows "\<not> pointer_fault e"
proof -
  have "\<exists>it s1. (case val_uptr of None \<Rightarrow> Inr (cend s, s) | Some v \<Rightarrow> add_entry key v s) = Inr (it, s1)
          \<and> kept s s1 \<and> pending_replies s1 = pending_replies s"
  proof (cases val_uptr)
    case None
    then show ?thesis using assms(3) by (simp add: kept_refl)
  next
    case (Some v)
    from assms(3) obtain ks where ks: "recency_list s ks" "length ks \<le> limit s"
      "set ks \<inter> set (outstanding s) = {}" "set ks = fst ` set (lru_map s)"
      by (rule inv_recency)
    with assms(6) have "key \<notin> set ks" by simp
    moreover from assms(3) have "key_equals s = (=)"
      by (simp add: cache_inv_def)
    ultimately have "map_find s key = None"
      using ks(4) by (simp add: map_find_equality)
    from add_entry_recency [OF ks(1) this, of v] obtain s1 where
      s1: "add_entry key v s = Inr (Entry key, s1)"
        "recency_list s1 (take (limit s) (key # ks))" "same_rest s s1"
      by blast
    have "set (take (limit s) (key # ks)) \<inter> set (outstanding s) = {}"
      using ks(3) assms(5) by (auto dest!: in_set_takeD)
    with kept_list_op [OF assms(3) s1(2,3)] have "kept s s1"
      by simp
    with s1 Some show ?thesis
      by (auto simp: same_rest_def)
  qed
  then obtain it s1 where
    1: "(case val_uptr of None \<Rightarrow> Inr (cend s, s) | Some v \<Rightarrow> add_entry key v s) = Inr (it, s1)"
    and k1: "kept s s1" and p1: "pending_replies s1 = pending_replies s"
    by blast
  from assms(4) p1 obtain rs where rs: "pending_replies s1 key = Some rs"
    by auto
  from assms(7) 1 rs have "drain call key rs rs it err s1 = Inl e"
    by (auto simp: miss_handler_reply_def split: sum.splits)
  moreover from k1 have "cache_inv s1" by (simp add: kept_def)
  ultimately show ?thesis
    using drain_safe [OF assms(1,2)] by blast
qed

lemma get_safe:
  assumes "callback_ok call" and "callback_safe call" and "cache_inv s"
    and "get call key reply s = Inl e"
  shows "\<not> pointer_fault e"
proof -
  from assms(3) obtain ks where ks: "recency_list s ks" "length ks \<le> limit s"
    "set ks \<inter> set (outstanding s) = {}" "set ks = fst ` set (lru_map s)"
    by (rule inv_recency)
  from assms(3) have "key_equals s = (=)"
    by (simp add: cache_inv_def)
  note map_find_iff = map_find_equality [OF this]
  show ?thesis
  proof (cases "key \<in> fst ` set (lru_map s)")
    case True
    with ks(4) obtain as bs where sp: "ks = as @ key # bs"
      by (metis split_list)
    from touch_recency [OF ks(1) [unfolded sp]] obtain s1 where
      s1: "touch (Entry key) s = Inr s1" "recency_list s1 (key # as @ bs)" "same_rest s s1"
      by blast
    from ks(2,3) have "length (key # as @ bs) \<le> limit s"
      "set (key # as @ bs) \<inter> set (outstanding s) = {}"
      by (auto simp: sp)
    with kept_list_op [OF assms(3) s1(2,3)] have "cache_inv s1"
      by (simp add: kept_def)
    moreover from assms(4) True s1(1)
    have "invoke_reply call reply (Entry key) no_error s1 = Inl e"
      by (simp add: get_def map_find_iff)
    ultimately show ?thesis
      using invoke_reply_safe [OF assms(2)] by blast
  next
    case False
    show ?thesis
    proof (cases "pending_replies s key")
      case (Some rs)
      with assms(4) False show ?thesis
        by (simp add: get_def map_find_iff)
    next
      case None
      define s1 where "s1 = s\<lparr>pending_replies := (pending_replies s)(key \<mapsto> [reply]),
                    outstanding := key # outstanding s,
                    trace := trace s @ [Fetch key]\<rparr>"
      from assms(4) False None have c: "call (miss_handler s key) s1 = Inl e"
        by (simp add: get_def map_find_iff s1_def)
      have "cache_inv s1"
        using assms(3) False None
        by (auto simp: cache_inv_def recency_list_upd s1_def)
      with assms(2) c show ?thesis
        unfolding callback_safe_def by blast
    qed
  qed
qed

lemma exec_safe:
  assumes "callback_ok call" and "callback_safe call" and "cache_inv s"
    and "exec call a s = Inl e"
  shows "\<not> pointer_fault e"
proof (cases a)
  case (Get key reply)
  with assms(4) have "get call key reply s = Inl e"
    by (simp add: exec_def)
  with assms(1,2,3) show ?thesis by (rule get_safe)
next
  case (Find key)
  with assms(4) show ?thesis by (simp add: exec_def)
next
  case (Invalidate key)
  from assms(3) obtain ks where "recency_list s ks"
    by (rule inv_recency)
  from invalidate_recency [OF this, of key] Invalidate assms(4) show ?thesis
    by (auto simp: exec_def)
next
  case Flush
  with assms(4) show ?thesis by (simp add: exec_def)
next
  case (Complete key val_uptr err)
  show ?thesis
  proof (cases "key \<in> set (outstanding s)")
    case False
    with assms(4) Complete have "e = Completion_misuse"
      by (simp add: exec_def)
    then show ?thesis by (simp add: pointer_fault_def)
  next
    case True
    define s0 where "s0 = s\<lparr>outstanding := removeAll key (outstanding s)\<rparr>"
    from assms(4) Complete True
    have m: "miss_handler_reply call key val_uptr err s0 = Inl e"
      by (simp add: exec_def s0_def)
    from assms(3) have sub: "set (outstanding s) \<subseteq> dom (pending_replies s)"
      and dis: "set (outstanding s) \<inter> fst ` set (lru_map s) = {}"
      and len: "length (lru_map s) \<le> limit s"
      and rl: "\<exists>ks. recency_list s ks"
      and eq: "key_equals s = (=)"
      by (simp_all add: cache_inv_def)
    from sub True have p1: "key \<in> dom (pending_replies s0)"
      by (auto simp: s0_def)
    have p2: "key \<notin> set (outstanding s0)"
      by (simp add: s0_def)
    from dis True have p3: "key \<notin> fst ` set (lru_map s0)"
      by (auto simp: s0_def)
    have inv0: "cache_inv s0"
      unfolding cache_inv_def using sub dis len rl eq
      by (auto simp: s0_def recency_list_upd)
    from miss_handler_reply_safe [OF assms(1,2) inv0 p1 p2 p3 m] show ?thesis .
  qed
qed

lemma steps_safe:
  assumes "callback_ok call" and "callback_safe call"
  shows "cache_inv s \<Longrightarrow> steps call as s = Inl e \<Longrightarrow> \<not> pointer_fault e"
proof (induction as arbitrary: s)
  case Nil
  then show ?case by simp
next
  case (Cons a as)
  show ?case
  proof (cases "exec call a s")
    case (Inl e')
    with Cons.prems(2) have "e' = e" by simp
    with Inl exec_safe [OF assms Cons.prems(1)] show ?thesis by blast
  next
    case (Inr s1)
    with Cons.prems(2) have d: "steps call as s1 = Inl e" by simp
    from exec_kept [OF assms(1) Cons.prems(1) Inr] have "cache_inv s1"
      by (simp add: kept_def)
    from Cons.IH [OF this d] show ?thesis .
  qed
qed

lemma callback_safe_callback: "callback_safe (callback n)"
proof (induction n)
  case 0
  show ?case by (simp add: callback_safe_def pointer_fault_def)
next
  case (Suc n)
  show ?case
    unfolding callback_safe_def
    using steps_safe [OF callback_ok_callback Suc] by auto
qed

lemma run_no_pointer_fault:
  assumes "run n as (construct (=) key0 handler lim) = Inl e"
  shows "e = Out_of_fuel \<or> e = Completion_misuse \<or> e = Iterator_invalidated"
proof -
  from assms have "steps (callback n) as (construct (=) key0 handler lim) = Inl e"
    by (simp add: run_def)
  then have "\<not> pointer_fault e"
    by (rule steps_safe [OF callback_ok_callback callback_safe_callback cache_inv_construct])
  then show ?thesis
    by (cases e) (simp_all add: pointer_fault_def)
qed

section \<open>Traversal and linkage of an intact list\<close>

lemma older_ofD: "older_of s p = Some q \<Longrightarrow> \<exists>nd. node_at s p = Inr nd \<and> older nd = q"
  by (auto simp: older_of_def split: sum.splits)

lemma newer_ofD: "newer_of s p = Some q \<Longrightarrow> \<exists>nd. node_at s p = Inr nd \<and> newer nd = q"
  by (auto simp: newer_of_def split: sum.splits)

lemma check_linkage_recency:
  assumes "recency_list s ks" and "k \<in> set ks"
  shows "check_linkage s (Entry k) = Inr True"
proof -
  from assms(2) obtain as bs where sp: "ks = as @ k # bs"
    by (metis split_list)
  define pa where "pa = last (Sentinel # map Entry as)"
  define pb where "pb = hd (map Entry bs @ [Sentinel])"
  from assms(1) have c1: "chain (older_of s) (newer_of s) Sentinel as (Entry k)"
    and c2: "chain (older_of s) (newer_of s) (Entry k) bs Sentinel"
    by (simp_all add: recency_list_def chain_append sp)
  from chain_last [OF c1] have a: "older_of s pa = Some (Entry k)" "newer_of s (Entry k) = Some pa"
    by (simp_all add: pa_def)
  from chain_hd [OF c2] have b: "older_of s (Entry k) = Some pb" "newer_of s pb = Some (Entry k)"
    by (simp_all add: pb_def)
  from older_ofD [OF b(1)] newer_ofD [OF a(2)]
  obtain nd where nd: "node_at s (Entry k) = Inr nd" "older nd = pb" "newer nd = pa"
    by auto
  from newer_ofD [OF b(2)] obtain o_nd where o: "node_at s pb = Inr o_nd" "newer o_nd = Entry k"
    by auto
  from older_ofD [OF a(1)] obtain n_nd where n: "node_at s pa = Inr n_nd" "older n_nd = Entry k"
    by auto
  show ?thesis
    using nd o n by (simp add: check_linkage_def)
qed

lemma traverse_chain:
  "chain (older_of s) nw p ks Sentinel \<Longrightarrow> length ks \<le> n \<Longrightarrow>
   \<exists>q. increment s p = Inr q \<and> traverse n s q = Inr (map Entry ks)"
proof (induction ks arbitrary: p n)
  case Nil
  then have "increment s p = Inr Sentinel"
    by (auto simp: increment_def dest!: older_ofD)
  then show ?case
    by (cases n) (simp_all add: cend_def)
next
  case (Cons k ks)
  from Cons.prems(2) obtain m where n: "n = Suc m" and m: "length ks \<le> m"
    by (cases n) auto
  from Cons.prems(1) have 1: "increment s p = Inr (Entry k)"
    and 2: "chain (older_of s) nw (Entry k) ks Sentinel"
    by (auto simp: increment_def dest!: older_ofD)
  from Cons.IH [OF 2 m] obtain q where "increment s (Entry k) = Inr q"
    "traverse m s q = Inr (map Entry ks)"
    by blast
  then have "traverse n s (Entry k) = Inr (map Entry (k # ks))"
    by (simp add: n cend_def)
  with 1 show ?case by simp
qed

lemma traverse_recency:
  assumes "recency_list s ks" and "length ks \<le> n"
  shows "traverse n s (cbegin s) = Inr (map Entry ks)"
proof -
  from assms(1) have "chain (older_of s) (newer_of s) Sentinel ks Sentinel"
    by (simp add: recency_list_def)
  from traverse_chain [OF this assms(2)] show ?thesis
    by (simp add: increment_def node_at_def cbegin_def)
qed

lemmas eval_defs = run_def exec_def get_def map_find_def miss_handler_reply_def
  add_entry_def emplace_def insert_at_head_def modify_node_def invoke_reply_def cend_def
  cbegin_def evict_lru_def first_at_def remove_def extract_def touch_def node_at_def
  increment_def no_error_def construct_def invalidate_def flush_def enforce_limit.simps
  cache_size_def check_linkage_def Let_def deferred_def immediate_def

section \<open>Runs whose replies do nothing\<close>

lemma steps_append:
  "steps call (as @ bs) s = (case steps call as s of Inl e \<Rightarrow> Inl e | Inr s1 \<Rightarrow> steps call bs s1)"
  by (induction as arbitrary: s) (auto split: sum.splits)

lemma callback_Nil: "callback (Suc n) [] s = Inr s"
  by simp

lemma get_miss_new:
  assumes "map_find s key = None" and "pending_replies s key = None"
  shows "get call key reply s =
           call (miss_handler s key)
             (s\<lparr>pending_replies := (pending_replies s)(key \<mapsto> [reply]),
                outstanding := key # outstanding s,
                trace := trace s @ [Fetch key]\<rparr>)"
  using assms by (simp add: get_def)

lemma get_miss_pending:
  assumes "map_find s key = None" and "pending_replies s key = Some rs"
  shows "get call key reply s =
           Inr (s\<lparr>pending_replies := (pending_replies s)(key \<mapsto> rs @ [reply])\<rparr>)"
  using assms by (simp add: get_def)

text \<open>Replies that do nothing leave the vector alone, and the loop visits them all.\<close>

lemma drain_passive:
  assumes "pending_replies s key = Some rs0"
  shows "drain (steps call) key rs0 (map (\<lambda>i. Reply i []) ids) it err s =
           Inr (s\<lparr>trace := trace s @ map (\<lambda>i. Replied i it err) ids\<rparr>)"
  using assms by (induction ids arbitrary: s) (simp_all add: invoke_reply_def)

lemma drain_append:
  "drain call key rs0 (as @ bs) it err s =
     (case drain call key rs0 as it err s of
        Inl e \<Rightarrow> Inl e
      | Inr s1 \<Rightarrow> drain call key rs0 bs it err s1)"
  by (induction as arbitrary: s) (auto split: sum.splits)

lemma complete_error_passive:
  assumes "pending_replies s key = Some (map (\<lambda>i. Reply i []) ids)"
  shows "miss_handler_reply (callback (Suc n)) key None err s =
           Inr (s\<lparr>trace := trace s @ map (\<lambda>i. Replied i Sentinel err) ids,
                  pending_replies := (pending_replies s)(key := None)\<rparr>)"
  using assms by (simp add: miss_handler_reply_def cend_def drain_passive)

lemma complete_value_passive:
  assumes "recency_list s ks" and "map_find s key = None"
    and "pending_replies s key = Some (map (\<lambda>i. Reply i []) ids)"
  shows "\<exists>s1. add_entry key v s = Inr (Entry key, s1) \<and>
           recency_list s1 (take (limit s) (key # ks)) \<and>
           contents s1 = filter (\<lambda>kv. fst kv \<in> set (take (limit s) (key # ks)))
                           ((key, Some v) # contents s) \<and>
           same_rest s s1 \<and>
           miss_handler_reply (callback (Suc n)) key (Some v) err s =
             Inr (s1\<lparr>trace := trace s @ map (\<lambda>i. Replied i (Entry key) err) ids,
                     pending_replies := (pending_replies s)(key := None)\<rparr>)"
proof -
  from add_entry_recency [OF assms(1,2), of v] obtain s1 where
    s1: "add_entry key v s = Inr (Entry key, s1)"
      "recency_list s1 (take (limit s) (key # ks))"
      "contents s1 = filter (\<lambda>kv. fst kv \<in> set (take (limit s) (key # ks)))
                           ((key, Some v) # contents s)"
      "same_rest s s1"
    by blast
  from s1(4) have "pending_replies s1 = pending_replies s" "trace s1 = trace s"
    by (simp_all add: same_rest_def)
  with s1(1) assms(3)
  have "miss_handler_reply (callback (Suc n)) key (Some v) err s =
             Inr (s1\<lparr>trace := trace s @ map (\<lambda>i. Replied i (Entry key) err) ids,
                     pending_replies := (pending_replies s)(key := None)\<rparr>)"
    by (simp add: miss_handler_reply_def drain_passive)
  with s1 show ?thesis by blast
qed

lemma contents_upd:
  "contents (s\<lparr>trace := t\<rparr>) = contents s"
  "contents (s\<lparr>pending_replies := pr\<rparr>) = contents s"
  "contents (s\<lparr>outstanding := ou\<rparr>) = contents s"
  by (simp_all add: contents_def)

lemma map_of_values:
  "map_of (map (\<lambda>kv. (fst kv, f (snd kv))) m) k = map_option f (map_of m k)"
  by (induction m) auto

lemma map_of_contents: "map_of (contents s) k = map_option node_value (map_of (lru_map s) k)"
  by (simp add: contents_def map_of_values)

lemma deref_contents: "map_of (contents s) k = Some (Some v) \<Longrightarrow> deref s (Entry k) = Inr v"
  by (auto simp: map_of_contents deref_def node_at_def)

lemma fetch_each_state:
  assumes "equivp eq" and "distinct (map fst kvs)"
    and "\<forall>a \<in> set (map fst kvs). \<forall>b \<in> set (map fst kvs). eq a b \<longrightarrow> a = b"
    and "length kvs \<le> lim" and "\<forall>k \<in> set (map fst kvs). handler k = []"
  shows "\<exists>s. run (Suc n) (fetch_each kvs) (construct eq key0 handler lim) = Inr s \<and>
           recency_list s (rev (map fst kvs)) \<and>
           contents s = rev (map (\<lambda>kv. (fst kv, Some (snd kv))) kvs) \<and>
           pending_replies s = (\<lambda>k. None) \<and> outstanding s = [] \<and>
           limit s = lim \<and> miss_handler s = handler \<and> key_equals s = eq"
  using assms(2-)
proof (induction kvs rule: rev_induct)
  case Nil
  show ?case
    using assms(1)
    by (simp add: fetch_each_def run_def recency_construct)
       (simp add: construct_def contents_def)
next
  case (snoc kv kvs)
  obtain k v where kv: "kv = (k, v)" by (cases kv)
  from snoc.prems(1) have d: "distinct (map fst kvs)" and kn: "k \<notin> set (map fst kvs)"
    by (simp_all add: kv)
  from snoc.prems(3) have len: "length kvs < lim"
    by simp
  from snoc.prems(4) have h: "\<forall>k \<in> set (map fst kvs). handler k = []" and hk: "handler k = []"
    by (simp_all add: kv)
  from snoc.prems(2) have u: "\<forall>a \<in> set (map fst kvs). \<forall>b \<in> set (map fst kvs). eq a b \<longrightarrow> a = b"
    by simp
  from snoc.prems(2) have uk: "\<forall>a \<in> set (map fst kvs). eq a k \<longrightarrow> a = k"
    by (simp add: kv)
  from kn uk have ne: "\<forall>a \<in> set (map fst kvs). \<not> eq a k"
    by blast
  from len have len': "length kvs \<le> lim" by simp
  from snoc.IH [OF d u len' h] obtain s where
    s: "run (Suc n) (fetch_each kvs) (construct eq key0 handler lim) = Inr s"
      "recency_list s (rev (map fst kvs))"
      "contents s = rev (map (\<lambda>kv. (fst kv, Some (snd kv))) kvs)"
      "pending_replies s = (\<lambda>k. None)" "outstanding s = []"
      "limit s = lim" "miss_handler s = handler" "key_equals s = eq"
    by blast
  from ne have "\<forall>a \<in> set (rev (map fst kvs)). \<not> key_equals s a k"
    by (simp add: s(8))
  then have keys: "map_find s k = None"
    using map_find_miss [OF s(2), of k] by simp
  define s1 where "s1 = s\<lparr>pending_replies := (pending_replies s)(k \<mapsto> [Reply 0 []]),
                outstanding := k # outstanding s, trace := trace s @ [Fetch k]\<rparr>"
  define s0 where "s0 = s1\<lparr>outstanding := removeAll k (outstanding s1)\<rparr>"
  have g: "get (callback (Suc n)) k (Reply 0 []) s = Inr s1"
    using get_miss_new [OF keys, of "callback (Suc n)" "Reply 0 []"] s(4,7) hk
    by (simp add: s1_def)
  have r0: "recency_list s0 (rev (map fst kvs))"
    using s(2) by (simp add: s0_def s1_def recency_list_upd)
  have p0: "pending_replies s0 k = Some (map (\<lambda>i. Reply i []) [0])"
    by (simp add: s0_def s1_def)
  have kn': "map_find s0 k = None"
    using keys by (simp add: s0_def s1_def map_find_def)
  from complete_value_passive [OF r0 kn' p0, of v n no_error] obtain s2 where
    s2: "recency_list s2 (take (limit s0) (k # rev (map fst kvs)))"
      "contents s2 = filter (\<lambda>kv. fst kv \<in> set (take (limit s0) (k # rev (map fst kvs))))
                           ((k, Some v) # contents s0)"
      "same_rest s0 s2"
      "miss_handler_reply (callback (Suc n)) k (Some v) no_error s0 =
             Inr (s2\<lparr>trace := trace s0 @ map (\<lambda>i. Replied i (Entry k) no_error) [0],
                     pending_replies := (pending_replies s0)(k := None)\<rparr>)"
    by blast
  define s3 where "s3 = s2\<lparr>trace := trace s0 @ map (\<lambda>i. Replied i (Entry k) no_error) [0],
                     pending_replies := (pending_replies s0)(k := None)\<rparr>"
  have lim0: "limit s0 = lim"
    using s(6) by (simp add: s0_def s1_def)
  have tk: "take (limit s0) (k # rev (map fst kvs)) = k # rev (map fst kvs)"
    using len lim0 by simp
  have c0: "contents s0 = contents s"
    by (simp add: s0_def s1_def contents_upd)
  have e: "exec (callback (Suc n)) (Complete k (Some v) no_error) s1 = Inr s3"
    using s2(4) by (simp add: exec_def s3_def s0_def [symmetric]) (simp add: s1_def)
  have "run (Suc n) (fetch_each (kvs @ [kv])) (construct eq key0 handler lim) = Inr s3"
    using s(1) g e by (simp add: fetch_each_def run_def steps_append kv exec_def)
  moreover have "recency_list s3 (rev (map fst (kvs @ [kv])))"
    using s2(1) unfolding tk by (simp add: s3_def recency_list_upd kv)
  moreover have "contents s3 = rev (map (\<lambda>kv. (fst kv, Some (snd kv))) (kvs @ [kv]))"
  proof -
    have "filter (\<lambda>kv. fst kv \<in> set (k # rev (map fst kvs))) ((k, Some v) # contents s)
            = (k, Some v) # contents s"
      unfolding s(3) by (auto simp: filter_id_conv)
    then show ?thesis
      using s2(2) unfolding tk c0 by (simp add: s3_def contents_upd kv s(3))
  qed
  moreover have "pending_replies s3 = (\<lambda>k. None)"
    using s(4) by (simp add: s3_def s0_def s1_def)
  moreover have "outstanding s3 = []" "limit s3 = lim" "miss_handler s3 = handler"
    "key_equals s3 = eq"
    using s2(3) s(5,6,7,8) by (simp_all add: s3_def same_rest_def s0_def s1_def)
  ultimately show ?case by blast
qed

lemma steps_gets_pending:
  assumes "map_find s key = None" and "pending_replies s key = Some rs"
  shows "steps call (map (\<lambda>i. Get key (Reply i [])) ids) s =
           Inr (s\<lparr>pending_replies := (pending_replies s)(key \<mapsto> rs @ map (\<lambda>i. Reply i []) ids)\<rparr>)"
  using assms
proof (induction ids arbitrary: s rs)
  case Nil
  then have "(pending_replies s)(key \<mapsto> rs) = pending_replies s"
    by (simp add: fun_upd_idem)
  then show ?case by simp
next
  case (Cons i ids)
  define s1 where "s1 = s\<lparr>pending_replies := (pending_replies s)(key \<mapsto> rs @ [Reply i []])\<rparr>"
  have "exec call (Get key (Reply i [])) s = Inr s1"
    using get_miss_pending [OF Cons.prems] by (simp add: exec_def s1_def)
  moreover have "map_find s1 key = None" "pending_replies s1 key = Some (rs @ [Reply i []])"
    using Cons.prems by (simp_all add: s1_def map_find_def)
  from Cons.IH [OF this]
  have "steps call (map (\<lambda>i. Get key (Reply i [])) ids) s1 =
          Inr (s1\<lparr>pending_replies :=
                 (pending_replies s1)(key \<mapsto> (rs @ [Reply i []]) @ map (\<lambda>i. Reply i []) ids)\<rparr>)" .
  moreover have "(pending_replies s1)(key \<mapsto> (rs @ [Reply i []]) @ map (\<lambda>i. Reply i []) ids)
                   = (pending_replies s)(key \<mapsto> rs @ map (\<lambda>i. Reply i []) (i # ids))"
    by (auto simp: s1_def fun_eq_iff)
  moreover have "s1\<lparr>pending_replies := pr\<rparr> = s\<lparr>pending_replies := pr\<rparr>" for pr
    by (simp add: s1_def)
  ultimately show ?case by (simp add: fun_upd_def)
qed

lemma exec_complete_passive:
  assumes "recency_list s ks" and "map_find s key = None"
    and "pending_replies s key = Some (map (\<lambda>i. Reply i []) ids)"
    and "key \<in> set (outstanding s)"
  shows "\<exists>s'. exec (callback (Suc n)) (Complete key val_uptr err) s = Inr s' \<and>
           trace s' = trace s @
             map (\<lambda>i. Replied i (case val_uptr of None \<Rightarrow> cend s | Some v \<Rightarrow> Entry key) err) ids \<and>
           pending_replies s' = (pending_replies s)(key := None) \<and>
           outstanding s' = removeAll key (outstanding s) \<and>
           recency_list s' (case val_uptr of None \<Rightarrow> ks | Some v \<Rightarrow> take (limit s) (key # ks)) \<and>
           contents s' = (case val_uptr of None \<Rightarrow> contents s | Some v \<Rightarrow>
              filter (\<lambda>kv. fst kv \<in> set (take (limit s) (key # ks))) ((key, Some v) # contents s))"
proof -
  define s0 where "s0 = s\<lparr>outstanding := removeAll key (outstanding s)\<rparr>"
  have p0: "pending_replies s0 key = Some (map (\<lambda>i. Reply i []) ids)"
    using assms(3) by (simp add: s0_def)
  have r0: "recency_list s0 ks"
    using assms(1) by (simp add: s0_def recency_list_upd)
  have m0: "map_find s0 key = None"
    using assms(2) by (simp add: s0_def map_find_def)
  have e: "exec (callback (Suc n)) (Complete key val_uptr err) s =
             miss_handler_reply (callback (Suc n)) key val_uptr err s0"
    using assms(4) by (simp add: exec_def s0_def)
  show ?thesis
  proof (cases val_uptr)
    case None
    have "exec (callback (Suc n)) (Complete key val_uptr err) s =
            Inr (s0\<lparr>trace := trace s0 @ map (\<lambda>i. Replied i Sentinel err) ids,
                  pending_replies := (pending_replies s0)(key := None)\<rparr>)"
      unfolding e using complete_error_passive [OF p0, of n err] None
      by (simp del: callback.simps)
    then show ?thesis
      using assms(1) None
      by (simp add: s0_def cend_def recency_list_upd contents_upd del: callback.simps)
  next
    case (Some v)
    from complete_value_passive [OF r0 m0 p0, of v n err] obtain s1 where
      s1: "recency_list s1 (take (limit s0) (key # ks))"
        "contents s1 = filter (\<lambda>kv. fst kv \<in> set (take (limit s0) (key # ks)))
                           ((key, Some v) # contents s0)"
        "same_rest s0 s1"
        "miss_handler_reply (callback (Suc n)) key (Some v) err s0 =
             Inr (s1\<lparr>trace := trace s0 @ map (\<lambda>i. Replied i (Entry key) err) ids,
                     pending_replies := (pending_replies s0)(key := None)\<rparr>)"
      by blast
    have "exec (callback (Suc n)) (Complete key val_uptr err) s =
             Inr (s1\<lparr>trace := trace s0 @ map (\<lambda>i. Replied i (Entry key) err) ids,
                     pending_replies := (pending_replies s0)(key := None)\<rparr>)"
      unfolding e using s1(4) Some
      by (simp del: callback.simps)
    then show ?thesis
      using s1(1,2,3) Some
      by (simp add: s0_def recency_list_upd contents_upd same_rest_def del: callback.simps)
  qed
qed

section \<open>The example states\<close>

lemma state_two_cached_reached:
  "run (Suc 0) [Get 1 (Reply 0 []), Complete 1 (Some 10) no_error,
                Get 2 (Reply 1 []), Complete 2 (Some 20) no_error]
     (construct (=) 0 deferred 2) = Inr state_two_cached"
  by (simp add: eval_defs state_two_cached_def)

lemma state_fetching_reached:
  "run (Suc 0) [Get 3 (Reply 2 []), Get 3 (Reply 3 [])] state_two_cached = Inr state_fetching"
  by (simp add: eval_defs state_two_cached_def state_fetching_def)

lemma state_after_tests_reached:
  "run (Suc (Suc 0))
     [Get 1 (Reply 0 []), Get 2 (Reply 1 []), Get 3 (Reply 2 []), Get 2 (Reply 3 [])]
     (construct (=) 0 immediate 2) = Inr state_after_tests"
  by (simp add: eval_defs state_after_tests_def)

lemma state_one_waiter_reached:
  "run (Suc 0) [Get 1 (Reply 0 [Get 1 (Reply 1 [])])] (construct (=) 0 deferred 2) =
     Inr state_one_waiter"
  by (simp add: eval_defs state_one_waiter_def)

lemma state_two_waiters_reached:
  "run (Suc 0) [Get 1 (Reply 0 [Get 1 (Reply 2 [])]), Get 1 (Reply 1 [])]
     (construct (=) 0 deferred 2) = Inr state_two_waiters"
  by (simp add: eval_defs state_two_waiters_def)

lemma state_two_fetches_reached:
  "run (Suc 0) [Get 1 (Reply 0 []), Get 11 (Reply 1 [])]
     (construct same_last_digit 0 deferred 3) = Inr state_two_fetches"
  by (simp add: eval_defs state_two_fetches_def same_last_digit_def)

lemma state_relinked_reached:
  "run (Suc 0) [Complete 1 (Some 10) no_error, Get 2 (Reply 2 []),
                Complete 2 (Some 20) no_error, Complete 11 (Some 110) no_error]
     state_two_fetches = Inr state_relinked"
  by (simp add: eval_defs state_two_fetches_def state_relinked_def same_last_digit_def)

lemma equivp_same_last_digit: "equivp same_last_digit"
  by (rule equivpI) (auto simp: reflp_def symp_def transp_def same_last_digit_def)

lemma recency_two_cached: "recency_list state_two_cached [2, 1]"
  by (simp add: recency_list_def state_two_cached_def older_of_def newer_of_def node_at_def
                unique_keys_equality)

lemma recency_fetching: "recency_list state_fetching [2, 1]"
  using recency_two_cached by (simp add: state_fetching_def recency_list_upd)

lemma cache_inv_fetching: "cache_inv state_fetching"
proof -
  have "cache_inv state_two_cached"
    using run_kept [OF cache_inv_construct state_two_cached_reached] by (simp add: kept_def)
  from run_kept [OF this state_fetching_reached] show ?thesis by (simp add: kept_def)
qed

text \<open>In the relinked list the older links lead from entry 1 to entry 2 and back.\<close>

lemma relinked_walk:
  "traverse n state_relinked (Entry 1) = Inl Out_of_fuel \<and>
   traverse n state_relinked (Entry 2) = Inl Out_of_fuel"
  by (induction n) (simp_all add: state_relinked_def cend_def increment_def node_at_def)

section \<open>What holds of coalescing, of the list and of a re-entrant \<^verbatim>\<open>get\<close>\<close>

text \<open>
  Calls of \<^verbatim>\<open>get\<close> with one and the same key (the same by \<^verbatim>\<open>==\<close>) are coalesced:
  with the key neither in the map nor pending and a miss handler that does not complete
  at once, the miss handler is called for the first call only, the replies are queued
  in call order, and a completion calls each of them once, in order, with the same
  iterator and error.
\<close>

lemma gets_of_one_key_coalesce:
  assumes "recency_list s ks" and "map_find s key = None" and "pending_replies s key = None"
    and "miss_handler s key = []" and "ids \<noteq> []"
  shows "\<exists>s1. run (Suc n) (map (\<lambda>i. Get key (Reply i [])) ids) s = Inr s1 \<and>
           trace s1 = trace s @ [Fetch key] \<and>
           pending_replies s1 = (pending_replies s)(key \<mapsto> map (\<lambda>i. Reply i []) ids) \<and>
           (\<forall>val_uptr err. \<exists>s2.
              exec (callback (Suc n)) (Complete key val_uptr err) s1 = Inr s2 \<and>
              trace s2 = trace s1 @
                map (\<lambda>i. Replied i (case val_uptr of None \<Rightarrow> cend s1 | Some v \<Rightarrow> Entry key) err) ids \<and>
              pending_replies s2 key = None)"
proof -
  from assms(5) obtain i ids' where ids: "ids = i # ids'"
    by (cases ids) auto
  define s0 where "s0 = s\<lparr>pending_replies := (pending_replies s)(key \<mapsto> [Reply i []]),
                 outstanding := key # outstanding s, trace := trace s @ [Fetch key]\<rparr>"
  define s1 where "s1 = s0\<lparr>pending_replies :=
      (pending_replies s0)(key \<mapsto> [Reply i []] @ map (\<lambda>i. Reply i []) ids')\<rparr>"
  have g: "exec (callback (Suc n)) (Get key (Reply i [])) s = Inr s0"
    using get_miss_new [OF assms(2,3), of "callback (Suc n)" "Reply i []"] assms(4)
    by (simp add: exec_def s0_def)
  have "map_find s0 key = None" "pending_replies s0 key = Some [Reply i []]"
    using assms(2) by (simp_all add: s0_def map_find_def)
  from steps_gets_pending [OF this, of "callback (Suc n)" ids']
  have "steps (callback (Suc n)) (map (\<lambda>i. Get key (Reply i [])) ids') s0 = Inr s1"
    by (simp add: s1_def)
  with g have r: "run (Suc n) (map (\<lambda>i. Get key (Reply i [])) ids) s = Inr s1"
    by (simp add: run_def ids del: callback.simps)
  have t: "trace s1 = trace s @ [Fetch key]"
    by (simp add: s1_def s0_def)
  have p: "pending_replies s1 = (pending_replies s)(key \<mapsto> map (\<lambda>i. Reply i []) ids)"
    by (simp add: s1_def s0_def ids)
  have r1: "recency_list s1 ks"
    using assms(1) by (simp add: s1_def s0_def recency_list_upd)
  have m1: "map_find s1 key = None"
    using assms(2) by (simp add: s1_def s0_def map_find_def)
  have p1: "pending_replies s1 key = Some (map (\<lambda>i. Reply i []) ids)"
    by (simp add: p)
  have o1: "key \<in> set (outstanding s1)"
    by (simp add: s1_def s0_def)
  have "\<exists>s2. exec (callback (Suc n)) (Complete key val_uptr err) s1 = Inr s2 \<and>
              trace s2 = trace s1 @
                map (\<lambda>i. Replied i (case val_uptr of None \<Rightarrow> cend s1 | Some v \<Rightarrow> Entry key) err) ids \<and>
              pending_replies s2 key = None" for val_uptr err
    using exec_complete_passive [OF r1 m1 p1 o1, of n val_uptr err] by auto
  with r t p show ?thesis by blast
qed

text \<open>
  Calls of \<^verbatim>\<open>get\<close> with two keys that differ by \<^verbatim>\<open>==\<close> are not coalesced,
  whatever \<^verbatim>\<open>KeyEquals\<close> says of the two: with neither in the map nor pending, the
  miss handler is called for each.
\<close>

lemma gets_of_two_keys_fetch_twice:
  assumes "map_find s k1 = None" and "map_find s k2 = None" and "k1 \<noteq> k2"
    and "pending_replies s k1 = None" and "pending_replies s k2 = None"
    and "miss_handler s k1 = []" and "miss_handler s k2 = []"
  shows "\<exists>s'. run (Suc n) [Get k1 r1, Get k2 r2] s = Inr s' \<and>
           trace s' = trace s @ [Fetch k1, Fetch k2] \<and>
           pending_replies s' = (pending_replies s)(k1 \<mapsto> [r1], k2 \<mapsto> [r2])"
proof -
  define s1 where "s1 = s\<lparr>pending_replies := (pending_replies s)(k1 \<mapsto> [r1]),
                 outstanding := k1 # outstanding s, trace := trace s @ [Fetch k1]\<rparr>"
  define s2 where "s2 = s1\<lparr>pending_replies := (pending_replies s1)(k2 \<mapsto> [r2]),
                 outstanding := k2 # outstanding s1, trace := trace s1 @ [Fetch k2]\<rparr>"
  have g1: "get (callback (Suc n)) k1 r1 s = Inr s1"
    using get_miss_new [OF assms(1,4), of "callback (Suc n)" r1] assms(6) by (simp add: s1_def)
  have "map_find s1 k2 = None" "pending_replies s1 k2 = None" "miss_handler s1 k2 = []"
    using assms(2,3,5,7) by (simp_all add: s1_def map_find_def)
  then have g2: "get (callback (Suc n)) k2 r2 s1 = Inr s2"
    using get_miss_new [of s1 k2 "callback (Suc n)" r2] by (simp add: s2_def)
  have "run (Suc n) [Get k1 r1, Get k2 r2] s = Inr s2"
    using g1 g2 by (simp add: run_def exec_def del: callback.simps)
  moreover have "trace s2 = trace s @ [Fetch k1, Fetch k2]"
    "pending_replies s2 = (pending_replies s)(k1 \<mapsto> [r1], k2 \<mapsto> [r2])"
    by (simp_all add: s2_def s1_def)
  ultimately show ?thesis by blast
qed

text \<open>
  With the default \<^verbatim>\<open>KeyEquals\<close>, after every run of public operations that
  returns, on a cache that starts empty, the walk from \<^verbatim>\<open>cbegin()\<close> to \<^verbatim>\<open>cend()\<close>
  visits exactly the entries of the map, \<^verbatim>\<open>size()\<close> of them, and every entry passes
  \<^verbatim>\<open>check_linkage\<close>.
\<close>

lemma list_intact_with_default_key_equals:
  assumes "run n as (construct (=) key0 handler lim) = Inr s"
  shows "\<exists>ks. traverse (cache_size s) s (cbegin s) = Inr (map Entry ks) \<and>
           set ks = fst ` set (lru_map s) \<and> length ks = cache_size s \<and>
           (\<forall>k \<in> set ks. check_linkage s (Entry k) = Inr True)"
proof -
  from run_kept [OF cache_inv_construct assms] have "cache_inv s"
    by (simp add: kept_def)
  then obtain ks where ks: "recency_list s ks"
    by (auto simp: cache_inv_def)
  then have len: "length ks = cache_size s"
    by (simp add: recency_length cache_size_def)
  from ks have "set ks = fst ` set (lru_map s)"
    by (simp add: recency_list_def)
  moreover from traverse_recency [OF ks, of "cache_size s"] len
  have "traverse (cache_size s) s (cbegin s) = Inr (map Entry ks)"
    by simp
  ultimately show ?thesis
    using len check_linkage_recency [OF ks] by blast
qed

text \<open>
  In such a state a key whose fetch is outstanding is not in the map, so that the
  completion of the fetch inserts its value.
\<close>

lemma outstanding_not_cached:
  assumes "cache_inv s" and "key \<in> set (outstanding s)"
  shows "map_find s key = None"
proof -
  from assms have "key_equals s = (=)" "key \<notin> fst ` set (lru_map s)"
    by (auto simp: cache_inv_def)
  then show ?thesis
    by (simp add: map_find_equality)
qed

text \<open>
  A waiter whose reply calls \<^verbatim>\<open>get\<close> for the key that is being delivered, the key
  not being in the map: the waiters before it (which do nothing) are called, then the
  waiter, whose \<^verbatim>\<open>get\<close> pushes its reply \<open>r\<close> onto the vector under the loop. Whatever
  follows the waiter in the vector, the completion has no defined behaviour from there.
\<close>

lemma reentrant_get_invalidates:
  assumes "pending_replies s key =
             Some (map (\<lambda>i. Reply i []) as @ Reply j [Get key r] # rest)"
    and "key \<in> set (outstanding s)" and "map_find s key = None"
  shows "exec (callback (Suc n)) (Complete key None err) s = Inl Iterator_invalidated"
proof -
  let ?rs = "map (\<lambda>i. Reply i []) as @ Reply j [Get key r] # rest"
  define s0 where "s0 = s\<lparr>outstanding := removeAll key (outstanding s)\<rparr>"
  define sa where "sa = s0\<lparr>trace := trace s0 @ map (\<lambda>i. Replied i Sentinel err) as\<rparr>"
  define sj where "sj = sa\<lparr>trace := trace sa @ [Replied j Sentinel err]\<rparr>"
  define sg where "sg = sj\<lparr>pending_replies := (pending_replies sj)(key \<mapsto> ?rs @ [r])\<rparr>"
  have p0: "pending_replies s0 key = Some ?rs"
    using assms(1) by (simp add: s0_def)
  have d1: "drain (callback (Suc n)) key ?rs (map (\<lambda>i. Reply i []) as) Sentinel err s0 = Inr sa"
    using drain_passive [OF p0, of "callback n" as Sentinel err] by (simp add: sa_def)
  have "map_find sj key = None" "pending_replies sj key = Some ?rs"
    using assms(1,3) by (simp_all add: sj_def sa_def s0_def map_find_def)
  from get_miss_pending [OF this, of "callback n" r]
  have "get (callback n) key r sj = Inr sg"
    by (simp add: sg_def)
  then have d2: "invoke_reply (callback (Suc n)) (Reply j [Get key r]) Sentinel err sa = Inr sg"
    by (simp add: invoke_reply_def exec_def sj_def)
  have "pending_replies sg key \<noteq> Some ?rs"
    by (simp add: sg_def)
  with d2 have d3: "drain (callback (Suc n)) key ?rs (Reply j [Get key r] # rest) Sentinel err sa =
      Inl Iterator_invalidated"
    by (simp del: callback.simps)
  have "drain (callback (Suc n)) key ?rs ?rs Sentinel err s0 = Inl Iterator_invalidated"
    using d1 d3 by (simp add: drain_append del: callback.simps)
  with p0 have "miss_handler_reply (callback (Suc n)) key None err s0 = Inl Iterator_invalidated"
    by (simp add: miss_handler_reply_def cend_def del: callback.simps)
  then show ?thesis
    using assms(2) by (simp add: exec_def s0_def del: callback.simps)
qed

section \<open>The claims\<close>

text \<open>
  The claims are stated for a cache whose map and recency list are intact,
  \<open>recency_list s ks\<close> with \<open>ks\<close> the stored keys from most to least recently used,
  and for any \<^verbatim>\<open>KeyEquals\<close> that is an equivalence relation. \<open>map_find s key = None\<close>
  says that the key is not in the map: no stored key \<^verbatim>\<open>KeyEquals\<close> it
  (\<open>map_find_miss\<close>); with the default \<^verbatim>\<open>KeyEquals\<close>, that the key is not among the
  stored keys (\<open>map_find_equality\<close>). A reply \<open>Reply i []\<close> is a waiter that only
  receives its result.
\<close>

text \<open>
  C1. Two keys that \<^verbatim>\<open>KeyEquals\<close> each other are one key of the cache: a \<^verbatim>\<open>get\<close>
  for either hits the entry stored under the other. They are two keys of the pending
  map, which compares with \<^verbatim>\<open>==\<close>. On the cache that takes keys with the same last
  digit for equal, \<^verbatim>\<open>get\<close> for 1 and then for 11, neither in the map and the first
  fetch not completed, calls the miss handler twice and makes two pending entries; and
  when the fetch of 1 brings a value and the fetch of 11 an error, the two waiters are
  given different results.
\<close>

theorem equivalent_keys_fetched_twice:
  "same_last_digit 1 11 \<and>
   map_find (construct same_last_digit 0 deferred 3) 1 = None \<and>
   map_find (construct same_last_digit 0 deferred 3) 11 = None \<and>
   run (Suc 0) [Get 1 (Reply 0 []), Get 11 (Reply 1 [])]
     (construct same_last_digit 0 deferred 3) = Inr state_two_fetches \<and>
   trace state_two_fetches = [Fetch 1, Fetch 11] \<and>
   pending_replies state_two_fetches 1 = Some [Reply 0 []] \<and>
   pending_replies state_two_fetches 11 = Some [Reply 1 []] \<and>
   map_sum id trace
     (run (Suc 0) [Complete 1 (Some 10) no_error,
                   Complete 11 None (Error_code 22 Generic_category)] state_two_fetches) =
     Inr [Fetch 1, Fetch 11, Replied 0 (Entry 1) no_error,
          Replied 1 Sentinel (Error_code 22 Generic_category)]"
proof -
  have "same_last_digit 1 11"
    by (simp add: same_last_digit_def)
  moreover have "map_find (construct same_last_digit 0 deferred 3) 1 = None"
    "map_find (construct same_last_digit 0 deferred 3) 11 = None"
    by (simp_all add: map_find_def construct_def)
  moreover have "trace state_two_fetches = [Fetch 1, Fetch 11]"
    "pending_replies state_two_fetches 1 = Some [Reply 0 []]"
    "pending_replies state_two_fetches 11 = Some [Reply 1 []]"
    by (simp_all add: state_two_fetches_def)
  moreover have "map_sum id trace
     (run (Suc 0) [Complete 1 (Some 10) no_error,
                   Complete 11 None (Error_code 22 Generic_category)] state_two_fetches) =
     Inr [Fetch 1, Fetch 11, Replied 0 (Entry 1) no_error,
          Replied 1 Sentinel (Error_code 22 Generic_category)]"
    by (simp add: eval_defs state_two_fetches_def same_last_digit_def)
  ultimately show ?thesis
    using state_two_fetches_reached by simp
qed

text \<open>
  C2. The completion erases the pending entry after the replies have been called, not
  before. On an empty cache with one waiter for key 1 whose reply calls \<^verbatim>\<open>get\<close> for
  key 1 again, a completion with no value and an error calls the waiter; its
  \<^verbatim>\<open>get\<close> finds the pending entry still in place, does not call the miss handler,
  and pushes the new reply onto the vector that the loop of the completion is walking,
  which leaves the completion without defined behaviour. The completion as specified,
  with the entry removed first, is well defined on the same input: the \<^verbatim>\<open>get\<close> of the
  waiter starts a new fetch.
\<close>

theorem completion_erases_after_delivery:
  "run (Suc 0) [Get 1 (Reply 0 [Get 1 (Reply 1 [])])] (construct (=) 0 deferred 2) =
     Inr state_one_waiter \<and>
   map_sum id (\<lambda>s. (pending_replies s 1, trace s))
     (invoke_reply (callback (Suc 0)) (Reply 0 [Get 1 (Reply 1 [])]) Sentinel
        (Error_code 22 Generic_category) (state_one_waiter\<lparr>outstanding := []\<rparr>)) =
     Inr (Some [Reply 0 [Get 1 (Reply 1 [])], Reply 1 []],
          [Fetch 1, Replied 0 Sentinel (Error_code 22 Generic_category)]) \<and>
   exec (callback (Suc 0)) (Complete 1 None (Error_code 22 Generic_category))
     state_one_waiter = Inl Iterator_invalidated \<and>
   map_sum id trace
     (miss_handler_reply_as_specified (callback (Suc (Suc 0))) 1 None
        (Error_code 22 Generic_category) (state_one_waiter\<lparr>outstanding := []\<rparr>)) =
     Inr [Fetch 1, Replied 0 Sentinel (Error_code 22 Generic_category), Fetch 1]"
proof -
  have "map_sum id (\<lambda>s. (pending_replies s 1, trace s))
     (invoke_reply (callback (Suc 0)) (Reply 0 [Get 1 (Reply 1 [])]) Sentinel
        (Error_code 22 Generic_category) (state_one_waiter\<lparr>outstanding := []\<rparr>)) =
     Inr (Some [Reply 0 [Get 1 (Reply 1 [])], Reply 1 []],
          [Fetch 1, Replied 0 Sentinel (Error_code 22 Generic_category)])"
    by (simp add: eval_defs state_one_waiter_def)
  moreover have "exec (callback (Suc 0)) (Complete 1 None (Error_code 22 Generic_category))
     state_one_waiter = Inl Iterator_invalidated"
    by (simp add: eval_defs state_one_waiter_def)
  moreover have "map_sum id trace
     (miss_handler_reply_as_specified (callback (Suc (Suc 0))) 1 None
        (Error_code 22 Generic_category) (state_one_waiter\<lparr>outstanding := []\<rparr>)) =
     Inr [Fetch 1, Replied 0 Sentinel (Error_code 22 Generic_category), Fetch 1]"
    by (simp add: eval_defs miss_handler_reply_as_specified_def state_one_waiter_def)
  ultimately show ?thesis
    using state_one_waiter_reached by simp
qed

text \<open>
  C3. With a \<^verbatim>\<open>KeyEquals\<close> coarser than \<^verbatim>\<open>==\<close> the list does not stay intact. On
  the cache that takes keys with the same last digit for equal: \<^verbatim>\<open>get\<close> for 1 and
  for 11 start two fetches; the first completes and its value is stored under 1; key 2
  is fetched and stored; then the fetch of 11 completes, \<^verbatim>\<open>emplace\<close> yields the entry
  of 1, which is in the list behind the entry of 2, and \<^verbatim>\<open>insert_at_head\<close> links it
  in again. Now the older links lead from the entry of 1 to the entry of 2 and back, the
  walk from \<^verbatim>\<open>cbegin()\<close> never reaches \<^verbatim>\<open>cend()\<close>, and the entry of 2, which the
  walk visits, fails \<^verbatim>\<open>check_linkage\<close>.
\<close>

theorem relinked_entry_breaks_list:
  "run (Suc 0) [Get 1 (Reply 0 []), Get 11 (Reply 1 []),
                Complete 1 (Some 10) no_error, Get 2 (Reply 2 []),
                Complete 2 (Some 20) no_error, Complete 11 (Some 110) no_error]
     (construct same_last_digit 0 deferred 3) = Inr state_relinked \<and>
   cache_size state_relinked = 2 \<and>
   cbegin state_relinked = Entry 1 \<and>
   increment state_relinked (Entry 1) = Inr (Entry 2) \<and>
   increment state_relinked (Entry 2) = Inr (Entry 1) \<and>
   check_linkage state_relinked (Entry 2) = Inr False \<and>
   (\<forall>n. traverse n state_relinked (cbegin state_relinked) = Inl Out_of_fuel)"
proof -
  have "run (Suc 0) ([Get 1 (Reply 0 []), Get 11 (Reply 1 [])] @
                [Complete 1 (Some 10) no_error, Get 2 (Reply 2 []),
                 Complete 2 (Some 20) no_error, Complete 11 (Some 110) no_error])
     (construct same_last_digit 0 deferred 3) = Inr state_relinked"
    unfolding run_def steps_append
    using state_two_fetches_reached state_relinked_reached by (simp add: run_def)
  moreover have "cache_size state_relinked = 2" "cbegin state_relinked = Entry 1"
    "increment state_relinked (Entry 1) = Inr (Entry 2)"
    "increment state_relinked (Entry 2) = Inr (Entry 1)"
    "check_linkage state_relinked (Entry 2) = Inr False"
    by (simp_all add: state_relinked_def cache_size_def cbegin_def increment_def
                      check_linkage_def node_at_def)
  moreover have "traverse n state_relinked (cbegin state_relinked) = Inl Out_of_fuel" for n
    using relinked_walk [of n] by (simp add: cbegin_def state_relinked_def)
  ultimately show ?thesis by simp
qed

text \<open>
  C4. Inserting a fetched value for a key that is not in the map puts the entry at the
  head and then evicts from the tail while the map is larger than the limit: of the
  keys \<open>key # ks\<close> the first \<open>limit\<close> stay, so the size afterwards is the smaller of the
  limit and the size with the new entry, and nothing stays when the limit is 0. And
  whenever a completion that carries a value returns, replies included, the size is
  within the limit, in whatever state the completion started. (In a state that a cache
  with the default \<^verbatim>\<open>KeyEquals\<close> reaches, a key whose fetch is outstanding is not in
  the map: \<open>outstanding_not_cached\<close>.)
\<close>

theorem eviction_keeps_limit:
  "(recency_list s ks \<and> map_find s key = None \<longrightarrow>
      (\<exists>s1. add_entry key v s = Inr (Entry key, s1) \<and>
         recency_list s1 (take (limit s) (key # ks)) \<and>
         cache_size s1 = min (limit s) (Suc (length ks)) \<and>
         cache_size s1 \<le> limit s1)) \<and>
   (\<forall>s'. exec (callback n) (Complete key (Some v) err) s = Inr s' \<longrightarrow>
      cache_size s' \<le> limit s')"
proof -
  have 1: "\<exists>s1. add_entry key v s = Inr (Entry key, s1) \<and>
            recency_list s1 (take (limit s) (key # ks)) \<and>
            cache_size s1 = min (limit s) (Suc (length ks)) \<and>
            cache_size s1 \<le> limit s1"
    if r: "recency_list s ks" and m: "map_find s key = None"
  proof -
    from add_entry_recency [OF r m, of v] obtain s1 where
      s1: "add_entry key v s = Inr (Entry key, s1)"
        "recency_list s1 (take (limit s) (key # ks))" "same_rest s s1"
      by blast
    from recency_length [OF s1(2)] have "cache_size s1 = min (limit s) (Suc (length ks))"
      by (simp add: cache_size_def min.commute)
    moreover from s1(3) have "limit s1 = limit s"
      by (simp add: same_rest_def)
    ultimately show ?thesis
      using s1 by auto
  qed
  have "cache_size s' \<le> limit s'"
    if "exec (callback n) (Complete key (Some v) err) s = Inr s'" for s'
    using complete_value_within [OF that] by (simp add: within_limit_def cache_size_def)
  with 1 show ?thesis by blast
qed

text \<open>The full cache of capacity 2 with key 3 in flight.\<close>

theorem eviction_keeps_limit_witness:
  "recency_list state_fetching [2, 1] \<and> map_find state_fetching 3 = None \<and>
   (\<exists>s1. add_entry 3 30 state_fetching = Inr (Entry 3, s1) \<and>
      recency_list s1 (take (limit state_fetching) [3, 2, 1]) \<and>
      cache_size s1 = min (limit state_fetching) (Suc (length [2, 1 :: nat])) \<and>
      cache_size s1 \<le> limit s1) \<and>
   (\<exists>s'. exec (callback (Suc 0)) (Complete 3 (Some 30) no_error) state_fetching = Inr s' \<and>
      cache_size s' \<le> limit s')"
proof -
  have h2: "map_find state_fetching 3 = None"
    by (simp add: map_find_def state_fetching_def state_two_cached_def)
  have h3: "pending_replies state_fetching 3 = Some (map (\<lambda>i. Reply i []) [2, 3])"
    and h4: "3 \<in> set (outstanding state_fetching)"
    by (simp_all add: state_fetching_def)
  from exec_complete_passive [OF recency_fetching h2 h3 h4, of 0 "Some 30" no_error]
  obtain s' where s': "exec (callback (Suc 0)) (Complete 3 (Some 30) no_error) state_fetching = Inr s'"
    by blast
  note c = eviction_keeps_limit [of state_fetching "[2, 1]" 3 30 "Suc 0" no_error]
  from c recency_fetching h2
  have 1: "\<exists>s1. add_entry 3 30 state_fetching = Inr (Entry 3, s1) \<and>
      recency_list s1 (take (limit state_fetching) [3, 2, 1]) \<and>
      cache_size s1 = min (limit state_fetching) (Suc (length [2, 1 :: nat])) \<and>
      cache_size s1 \<le> limit s1"
    by blast
  from c s' have 2: "\<exists>s'. exec (callback (Suc 0)) (Complete 3 (Some 30) no_error) state_fetching = Inr s' \<and>
      cache_size s' \<le> limit s'"
    by blast
  show ?thesis
    by (rule conjI, rule recency_fetching, rule conjI, rule h2, rule conjI, rule 1, rule 2)
qed

text \<open>
  C5. Recency ordering. Fetching distinct keys, no two of them equal for
  \<^verbatim>\<open>KeyEquals\<close>, one after the other into an empty cache whose limit is at least their
  number, each fetch completed with its value, gives a list that the walk from
  \<^verbatim>\<open>cbegin()\<close> to \<^verbatim>\<open>cend()\<close> reads in the reverse order: last inserted first, with
  the values that were inserted.
\<close>

theorem recency_order:
  assumes "unique_keys eq (map fst kvs)" and "distinct (map fst kvs)" and "length kvs \<le> lim"
    and "\<forall>k \<in> set (map fst kvs). handler k = []"
  shows "\<exists>s. run (Suc n) (fetch_each kvs) (construct eq key0 handler lim) = Inr s \<and>
           traverse (length kvs) s (cbegin s) = Inr (map Entry (rev (map fst kvs))) \<and>
           map (deref s) (map Entry (rev (map fst kvs))) = map Inr (rev (map snd kvs)) \<and>
           cache_size s = length kvs"
proof -
  from assms(1) have e: "equivp eq"
    and u: "\<forall>a \<in> set (map fst kvs). \<forall>b \<in> set (map fst kvs). eq a b \<longrightarrow> a = b"
    by (simp_all add: unique_keys_def)
  from fetch_each_state [OF e assms(2) u assms(3,4), of n key0] obtain s where
    s: "run (Suc n) (fetch_each kvs) (construct eq key0 handler lim) = Inr s"
      "recency_list s (rev (map fst kvs))"
      "contents s = rev (map (\<lambda>kv. (fst kv, Some (snd kv))) kvs)"
    by blast
  from traverse_recency [OF s(2), of "length kvs"]
  have t: "traverse (length kvs) s (cbegin s) = Inr (map Entry (rev (map fst kvs)))"
    by simp
  have "deref s (Entry (fst kv)) = Inr (snd kv)" if "kv \<in> set kvs" for kv
  proof -
    have "distinct (map fst (contents s))"
      using assms(2) by (simp add: s(3) rev_map [symmetric] comp_def)
    moreover have "(fst kv, Some (snd kv)) \<in> set (contents s)"
      using that by (auto simp: s(3))
    ultimately have "map_of (contents s) (fst kv) = Some (Some (snd kv))"
      by (rule map_of_is_SomeI)
    then show ?thesis by (rule deref_contents)
  qed
  then have d: "map (deref s) (map Entry (rev (map fst kvs))) = map Inr (rev (map snd kvs))"
    by (simp add: rev_map)
  from recency_length [OF s(2)] have "cache_size s = length kvs"
    by (simp add: cache_size_def)
  with s(1) t d show ?thesis by blast
qed

text \<open>Keys 1, 2 and 3 on the cache that takes keys with the same last digit for equal.\<close>

theorem recency_order_witness:
  "unique_keys same_last_digit (map fst [(1 :: nat, 10 :: nat), (2, 20), (3, 30)]) \<and>
   distinct (map fst [(1 :: nat, 10 :: nat), (2, 20), (3, 30)]) \<and>
   length [(1 :: nat, 10 :: nat), (2, 20), (3, 30)] \<le> 3 \<and>
   deferred 1 = [] \<and> deferred 2 = [] \<and> deferred 3 = [] \<and>
   (\<exists>s. run (Suc 0) (fetch_each [(1, 10), (2, 20), (3, 30)])
           (construct same_last_digit 0 deferred 3) = Inr s \<and>
      traverse (length [(1 :: nat, 10 :: nat), (2, 20), (3, 30)]) s (cbegin s) =
        Inr (map Entry (rev (map fst [(1 :: nat, 10 :: nat), (2, 20), (3, 30)]))) \<and>
      map (deref s) (map Entry (rev (map fst [(1 :: nat, 10 :: nat), (2, 20), (3, 30)]))) =
        map Inr (rev (map snd [(1 :: nat, 10 :: nat), (2, 20), (3, 30)])) \<and>
      cache_size s = length [(1 :: nat, 10 :: nat), (2, 20), (3, 30)])"
proof -
  have h0: "unique_keys same_last_digit (map fst [(1 :: nat, 10 :: nat), (2, 20), (3, 30)])"
    by (simp add: unique_keys_def equivp_same_last_digit same_last_digit_def)
  have h1: "distinct (map fst [(1 :: nat, 10 :: nat), (2, 20), (3, 30)])"
    and h2: "length [(1 :: nat, 10 :: nat), (2, 20), (3, 30)] \<le> 3"
    by simp_all
  have d: "deferred 1 = []" "deferred 2 = []" "deferred 3 = []"
    by (simp_all add: deferred_def)
  then have h3: "\<forall>k \<in> set (map fst [(1 :: nat, 10 :: nat), (2, 20), (3, 30)]). deferred k = []"
    by simp
  note c = recency_order [OF h0 h1 h2 h3, of 0 0]
  show ?thesis
    by (rule conjI, rule h0, rule conjI, rule h1, rule conjI, rule h2, rule conjI, rule d(1),
        rule conjI, rule d(2), rule conjI, rule d(3), rule c)
qed

text \<open>
  C6. Hit. For a key that \<^verbatim>\<open>KeyEquals\<close> a stored key \<open>hit\<close>, \<^verbatim>\<open>get\<close> moves the
  entry of \<open>hit\<close> to the head of the list and calls the reply once, with that entry and
  no error, before it returns: the body of the reply runs on the state \<open>s1\<close> after the
  touch. In \<open>s1\<close>, \<^verbatim>\<open>cbegin()\<close> is the entry, the keys and values of the map and its
  size are as before, and the pending map, the outstanding completions and the trace are
  as before: the miss handler is not called. With the default \<^verbatim>\<open>KeyEquals\<close>, \<open>hit\<close>
  is the key.
\<close>

theorem get_hit:
  assumes "recency_list s ks" and "hit \<in> set ks" and "key_equals s hit key"
  shows "\<exists>s1. touch (Entry hit) s = Inr s1 \<and>
           recency_list s1 (hit # removeAll hit ks) \<and> cbegin s1 = Entry hit \<and>
           contents s1 = contents s \<and> cache_size s1 = cache_size s \<and> same_rest s s1 \<and>
           (\<forall>call i body. get call key (Reply i body) s =
               call body (s1\<lparr>trace := trace s @ [Replied i (Entry hit) no_error]\<rparr>)) \<and>
           (\<forall>n i. get (callback (Suc n)) key (Reply i []) s =
               Inr (s1\<lparr>trace := trace s @ [Replied i (Entry hit) no_error]\<rparr>))"
proof -
  from assms(2) obtain as bs where sp: "ks = as @ hit # bs"
    by (metis split_list)
  with assms(1) have "hit \<notin> set as" "hit \<notin> set bs"
    by (auto simp: recency_list_def)
  then have ra: "removeAll hit ks = as @ bs"
    by (simp add: sp)
  from touch_recency [OF assms(1) [unfolded sp]] obtain s1 where
    s1: "touch (Entry hit) s = Inr s1" "recency_list s1 (hit # as @ bs)"
      "contents s1 = contents s" "same_rest s s1"
    by blast
  from s1(2) have "chain (older_of s1) (newer_of s1) Sentinel (hit # as @ bs) Sentinel"
    by (simp add: recency_list_def)
  then have b: "cbegin s1 = Entry hit"
    by (simp add: cbegin_def older_of_Sentinel)
  from s1(3) have sz: "cache_size s1 = cache_size s"
    by (metis cache_size_def keys_contents length_map)
  from assms have f: "map_find s key = Some hit"
    by (rule map_find_hit)
  from s1(4) have tr: "trace s1 = trace s"
    by (simp add: same_rest_def)
  have g: "get call key (Reply i body) s =
               call body (s1\<lparr>trace := trace s @ [Replied i (Entry hit) no_error]\<rparr>)"
    for call i body
    using f s1(1) tr by (simp add: get_def invoke_reply_def)
  then have "get (callback (Suc n)) key (Reply i []) s =
               Inr (s1\<lparr>trace := trace s @ [Replied i (Entry hit) no_error]\<rparr>)" for n i
    by simp
  with g s1 b sz show ?thesis
    unfolding ra by blast
qed

text \<open>
  Keys 1 and 2 fetched into the cache that takes keys with the same last digit for
  equal, then \<^verbatim>\<open>get\<close> for 11: the entry stored under 1 is hit.
\<close>

theorem get_hit_witness:
  "\<exists>s. run (Suc 0) (fetch_each [(1, 10), (2, 20)]) (construct same_last_digit 0 deferred 3) =
          Inr s \<and>
     recency_list s [2, 1] \<and> 1 \<in> set [2, 1 :: nat] \<and> key_equals s 1 11 \<and>
     (\<exists>s1. touch (Entry 1) s = Inr s1 \<and>
        recency_list s1 (1 # removeAll 1 [2, 1]) \<and> cbegin s1 = Entry 1 \<and>
        contents s1 = contents s \<and>
        get (callback (Suc 0)) 11 (Reply 7 []) s =
          Inr (s1\<lparr>trace := trace s @ [Replied 7 (Entry 1) no_error]\<rparr>))"
proof -
  have u: "\<forall>a \<in> set (map fst [(1 :: nat, 10 :: nat), (2, 20)]).
             \<forall>b \<in> set (map fst [(1 :: nat, 10 :: nat), (2, 20)]). same_last_digit a b \<longrightarrow> a = b"
    by (simp add: same_last_digit_def)
  have h: "\<forall>k \<in> set (map fst [(1 :: nat, 10 :: nat), (2, 20)]). deferred k = []"
    by (simp add: deferred_def)
  from fetch_each_state [OF equivp_same_last_digit _ u _ h, of 3 0 0] obtain s where
    s: "run (Suc 0) (fetch_each [(1, 10), (2, 20)]) (construct same_last_digit 0 deferred 3) =
          Inr s"
      "recency_list s (rev (map fst [(1 :: nat, 10 :: nat), (2, 20)]))"
      "key_equals s = same_last_digit"
    by auto
  from s(2) have r: "recency_list s [2, 1]"
    by simp
  have h2: "1 \<in> set [2, 1 :: nat]"
    by simp
  have h3: "key_equals s 1 11"
    by (simp add: s(3) same_last_digit_def)
  from get_hit [OF r h2 h3] s(1) r h2 h3 show ?thesis
    by blast
qed

text \<open>
  C7. On a miss with no fetch outstanding, the miss handler runs on a state in which
  the pending entry of the key, holding the reply, is already registered. So when the
  miss handler calls the completion before it returns, the completion finds the entry:
  \<^verbatim>\<open>get\<close> returns, and the reply has been called, after the miss handler, with the
  result of the fetch.
\<close>

theorem pending_before_fetch:
  assumes "recency_list s ks" and "map_find s key = None" and "pending_replies s key = None"
    and "miss_handler s key = [Complete key val_uptr err]"
  shows "(\<forall>call reply. get call key reply s =
            call (miss_handler s key)
              (s\<lparr>pending_replies := (pending_replies s)(key \<mapsto> [reply]),
                 outstanding := key # outstanding s,
                 trace := trace s @ [Fetch key]\<rparr>)) \<and>
         (\<exists>s'. get (callback (Suc (Suc n))) key (Reply i []) s = Inr s' \<and>
            trace s' = trace s @ [Fetch key,
              Replied i (case val_uptr of None \<Rightarrow> Sentinel | Some v \<Rightarrow> Entry key) err] \<and>
            pending_replies s' key = None)"
proof -
  note g = get_miss_new [OF assms(2,3)]
  define s1 where "s1 = s\<lparr>pending_replies := (pending_replies s)(key \<mapsto> [Reply i []]),
                 outstanding := key # outstanding s, trace := trace s @ [Fetch key]\<rparr>"
  define s0 where "s0 = s1\<lparr>outstanding := removeAll key (outstanding s1)\<rparr>"
  have p0: "pending_replies s0 key = Some (map (\<lambda>i. Reply i []) [i])"
    by (simp add: s0_def s1_def)
  have r0: "recency_list s0 ks"
    using assms(1) by (simp add: s0_def s1_def recency_list_upd)
  have m0: "map_find s0 key = None"
    using assms(2) by (simp add: s0_def s1_def map_find_def)
  have tr0: "trace s0 = trace s @ [Fetch key]"
    by (simp add: s0_def s1_def)
  have "\<exists>s'. miss_handler_reply (callback (Suc n)) key val_uptr err s0 = Inr s' \<and>
          trace s' = trace s @ [Fetch key,
              Replied i (case val_uptr of None \<Rightarrow> Sentinel | Some v \<Rightarrow> Entry key) err] \<and>
          pending_replies s' key = None"
  proof (cases val_uptr)
    case None
    with complete_error_passive [OF p0, of n err] tr0 show ?thesis by simp
  next
    case (Some v)
    from complete_value_passive [OF r0 m0 p0, of v n err] Some tr0
    show ?thesis by auto
  qed
  then obtain s' where
    s': "miss_handler_reply (callback (Suc n)) key val_uptr err s0 = Inr s'"
      "trace s' = trace s @ [Fetch key,
              Replied i (case val_uptr of None \<Rightarrow> Sentinel | Some v \<Rightarrow> Entry key) err]"
      "pending_replies s' key = None"
    by blast
  have "get (callback (Suc (Suc n))) key (Reply i []) s = Inr s'"
    unfolding g assms(4) using s'(1)
    by (simp add: exec_def s1_def [symmetric]) (simp add: s1_def s0_def)
  with s'(2,3) g show ?thesis by blast
qed

theorem pending_before_fetch_witness:
  "recency_list (construct (=) 0 immediate 2) [] \<and>
   map_find (construct (=) 0 immediate 2) 1 = None \<and>
   pending_replies (construct (=) 0 immediate 2) 1 = None \<and>
   miss_handler (construct (=) 0 immediate 2) 1 = [Complete 1 (Some 10) no_error] \<and>
   (\<forall>call reply. get call 1 reply (construct (=) 0 immediate 2) =
      call (miss_handler (construct (=) 0 immediate 2) 1)
        ((construct (=) 0 immediate 2)
           \<lparr>pending_replies := (pending_replies (construct (=) 0 immediate 2))(1 \<mapsto> [reply]),
            outstanding := 1 # outstanding (construct (=) 0 immediate 2),
            trace := trace (construct (=) 0 immediate 2) @ [Fetch 1]\<rparr>)) \<and>
   (\<exists>s'. get (callback (Suc (Suc 0))) 1 (Reply 0 []) (construct (=) 0 immediate 2) = Inr s' \<and>
      trace s' = trace (construct (=) 0 immediate 2) @
        [Fetch 1,
         Replied 0 (case Some (10 :: nat) of None \<Rightarrow> Sentinel | Some v \<Rightarrow> Entry 1) no_error] \<and>
      pending_replies s' 1 = None)"
proof -
  have h1: "recency_list (construct (=) 0 immediate 2) []"
    by (rule recency_construct) (rule identity_equivp)
  have h2: "map_find (construct (=) 0 immediate 2) 1 = None"
    by (simp add: map_find_def construct_def)
  have h3: "pending_replies (construct (=) 0 immediate 2) 1 = None"
    and h4: "miss_handler (construct (=) 0 immediate 2) 1 = [Complete 1 (Some 10) no_error]"
    by (simp_all add: construct_def immediate_def)
  note c = pending_before_fetch [OF h1 h2 h3 h4, of 0 0]
  show ?thesis
    by (rule conjI, rule h1, rule conjI, rule h2, rule conjI, rule h3,
        rule conjI, rule h4, rule c)
qed



text \<open>
  C9. \<^verbatim>\<open>flush\<close> empties the map and links the sentinel to itself, and neither
  \<^verbatim>\<open>flush\<close> nor \<^verbatim>\<open>invalidate\<close> changes the pending map or the outstanding
  completions. A fetch that is in flight at the call completes afterwards as usual: its
  waiters are called with the new entry, and the value is inserted at the head (to be
  evicted at once only when the limit is 0). \<^verbatim>\<open>invalidate(k)\<close> removes the entry that
  \<^verbatim>\<open>map_.find(k)\<close> yields, if any.
\<close>

theorem flush_keeps_pending:
  assumes "recency_list s ks" and "map_find s key = None"
    and "pending_replies s key = Some (map (\<lambda>i. Reply i []) ids)"
    and "key \<in> set (outstanding s)"
  shows "lru_map (flush s) = [] \<and> older (sentinel (flush s)) = Sentinel \<and>
         newer (sentinel (flush s)) = Sentinel \<and> recency_list (flush s) [] \<and>
         pending_replies (flush s) = pending_replies s \<and>
         outstanding (flush s) = outstanding s \<and>
         (\<exists>s'. exec (callback (Suc n)) (Complete key (Some v) err) (flush s) = Inr s' \<and>
            trace s' = trace s @ map (\<lambda>i. Replied i (Entry key) err) ids \<and>
            recency_list s' (take (limit s) [key]) \<and>
            contents s' = (if limit s = 0 then [] else [(key, Some v)]) \<and>
            pending_replies s' key = None) \<and>
         (\<exists>s1. invalidate k s = Inr s1 \<and> pending_replies s1 = pending_replies s \<and>
            outstanding s1 = outstanding s \<and>
            recency_list s1 (case map_find s k of None \<Rightarrow> ks | Some fit \<Rightarrow> removeAll fit ks) \<and>
            (\<exists>s'. exec (callback (Suc n)) (Complete key (Some v) err) s1 = Inr s' \<and>
               trace s' = trace s @ map (\<lambda>i. Replied i (Entry key) err) ids \<and>
               recency_list s'
                 (take (limit s)
                    (key # (case map_find s k of None \<Rightarrow> ks | Some fit \<Rightarrow> removeAll fit ks))) \<and>
               pending_replies s' key = None))"
proof -
  define ks' where "ks' = (case map_find s k of None \<Rightarrow> ks | Some fit \<Rightarrow> removeAll fit ks)"
  have f: "lru_map (flush s) = []" "older (sentinel (flush s)) = Sentinel"
    "newer (sentinel (flush s)) = Sentinel" "pending_replies (flush s) = pending_replies s"
    "outstanding (flush s) = outstanding s" "trace (flush s) = trace s"
    "limit (flush s) = limit s" "contents (flush s) = []"
    by (simp_all add: flush_def contents_def)
  from recency_equivp [OF assms(1)] have rf: "recency_list (flush s) []"
    by (rule recency_flush)
  have mf: "map_find (flush s) key = None"
    by (simp add: map_find_def flush_def)
  have 1: "\<exists>s'. exec (callback (Suc n)) (Complete key (Some v) err) (flush s) = Inr s' \<and>
            trace s' = trace s @ map (\<lambda>i. Replied i (Entry key) err) ids \<and>
            recency_list s' (take (limit s) [key]) \<and>
            contents s' = (if limit s = 0 then [] else [(key, Some v)]) \<and>
            pending_replies s' key = None"
    using exec_complete_passive [OF rf mf, of ids n "Some v" err] assms(3,4)
    by (cases "limit s") (auto simp: f)
  from invalidate_recency [OF assms(1), of k] obtain s1 where
    s1: "invalidate k s = Inr s1" "recency_list s1 ks'" "same_rest s s1"
    unfolding ks'_def by blast
  from s1(3) have r: "pending_replies s1 = pending_replies s" "outstanding s1 = outstanding s"
    "trace s1 = trace s" "limit s1 = limit s" "key_equals s1 = key_equals s"
    by (simp_all add: same_rest_def)
  have "set ks' \<subseteq> set ks"
    by (auto simp: ks'_def split: option.splits)
  moreover from assms(1,2) have "\<forall>a \<in> set ks. \<not> key_equals s a key"
    by (simp add: map_find_miss)
  ultimately have "\<forall>a \<in> set ks'. \<not> key_equals s1 a key"
    using r(5) by auto
  then have m1: "map_find s1 key = None"
    using map_find_miss [OF s1(2), of key] by simp
  from exec_complete_passive [OF s1(2) m1, of ids n "Some v" err] assms(3,4)
  have 2: "\<exists>s'. exec (callback (Suc n)) (Complete key (Some v) err) s1 = Inr s' \<and>
               trace s' = trace s @ map (\<lambda>i. Replied i (Entry key) err) ids \<and>
               recency_list s' (take (limit s) (key # ks')) \<and>
               pending_replies s' key = None"
    by (auto simp: r)
  from f rf 1 s1 r 2 show ?thesis
    unfolding ks'_def by blast
qed

text \<open>Key 3 in flight while the cache is flushed, or key 1 invalidated.\<close>

theorem flush_keeps_pending_witness:
  "recency_list state_fetching [2, 1] \<and> map_find state_fetching 3 = None \<and>
   pending_replies state_fetching 3 = Some (map (\<lambda>i. Reply i []) [2, 3]) \<and>
   3 \<in> set (outstanding state_fetching) \<and>
   lru_map (flush state_fetching) = [] \<and>
   pending_replies (flush state_fetching) = pending_replies state_fetching \<and>
   (\<exists>s'. exec (callback (Suc 0)) (Complete 3 (Some 30) no_error) (flush state_fetching) = Inr s' \<and>
      recency_list s' (take (limit state_fetching) [3]) \<and> pending_replies s' 3 = None) \<and>
   (\<exists>s1. invalidate 1 state_fetching = Inr s1 \<and>
      pending_replies s1 = pending_replies state_fetching \<and>
      recency_list s1 (case map_find state_fetching 1 of None \<Rightarrow> [2, 1]
                       | Some fit \<Rightarrow> removeAll fit [2, 1]))"
proof -
  have h2: "map_find state_fetching 3 = None"
    by (simp add: map_find_def state_fetching_def state_two_cached_def)
  have h3: "pending_replies state_fetching 3 = Some (map (\<lambda>i. Reply i []) [2, 3])"
    and h4: "3 \<in> set (outstanding state_fetching)"
    by (simp_all add: state_fetching_def)
  from flush_keeps_pending [OF recency_fetching h2 h3 h4, of 0 30 no_error 1]
    recency_fetching h2 h3 h4
  show ?thesis by blast
qed

text \<open>
  C10. A reply that calls \<^verbatim>\<open>get\<close> for the key being delivered does find the pending
  entry still in place, when the key is not in the map, and its new reply is pushed onto
  the entry without a call of the miss handler. But the entry is the vector that the
  loop of the completion is walking. On an empty cache with two waiters for key 1, the
  first of which calls \<^verbatim>\<open>get\<close> for key 1 again, a completion with no value and an
  error calls the first waiter, whose \<^verbatim>\<open>get\<close> makes the vector three replies long;
  from there the loop has no defined behaviour: the second waiter is not reached by a
  valid iterator, and the completion does not get to erase the entry.
\<close>

theorem reentrant_get_pushes_onto_delivered_vector:
  "run (Suc 0) [Get 1 (Reply 0 [Get 1 (Reply 2 [])]), Get 1 (Reply 1 [])]
     (construct (=) 0 deferred 2) = Inr state_two_waiters \<and>
   map_sum id (\<lambda>s. (pending_replies s 1, trace s))
     (invoke_reply (callback (Suc 0)) (Reply 0 [Get 1 (Reply 2 [])]) Sentinel
        (Error_code 22 Generic_category) (state_two_waiters\<lparr>outstanding := []\<rparr>)) =
     Inr (Some [Reply 0 [Get 1 (Reply 2 [])], Reply 1 [], Reply 2 []],
          [Fetch 1, Replied 0 Sentinel (Error_code 22 Generic_category)]) \<and>
   exec (callback (Suc 0)) (Complete 1 None (Error_code 22 Generic_category))
     state_two_waiters = Inl Iterator_invalidated"
proof -
  have "map_sum id (\<lambda>s. (pending_replies s 1, trace s))
     (invoke_reply (callback (Suc 0)) (Reply 0 [Get 1 (Reply 2 [])]) Sentinel
        (Error_code 22 Generic_category) (state_two_waiters\<lparr>outstanding := []\<rparr>)) =
     Inr (Some [Reply 0 [Get 1 (Reply 2 [])], Reply 1 [], Reply 2 []],
          [Fetch 1, Replied 0 Sentinel (Error_code 22 Generic_category)])"
    by (simp add: eval_defs state_two_waiters_def)
  moreover have "exec (callback (Suc 0)) (Complete 1 None (Error_code 22 Generic_category))
     state_two_waiters = Inl Iterator_invalidated"
    by (simp add: eval_defs state_two_waiters_def)
  ultimately show ?thesis
    using state_two_waiters_reached by simp
qed

end
